theory Spec2Isabelle
  imports Main
begin

section \<open>The type model (types.ts)\<close>

text \<open>
  The generator of \<^verbatim>\<open>src/lib/generator.ts\<close> turns a table of named types into the text of a
  TypeScript module. For every name the module holds a binding with a \<^verbatim>\<open>validate\<close> and a
  \<^verbatim>\<open>create\<close> method, whose bodies are assembled by \<^verbatim>\<open>generateTypeValidator\<close> and
  \<^verbatim>\<open>generateTypeSanitizer\<close>. This theory gives the emitted statements their JavaScript
  meaning: running the text that the generator emits for a type on a value is a function
  of the type and the value.

  The meaning is that of well-formed text whose locals are what the generator means them
  to be. The names of the types and of the properties are taken to be identifiers that,
  as they are and as \<^verbatim>\<open>variableNameFromPath\<close> joins them into the names of locals, differ from
  each other and from the identifiers that the emitted text declares by itself
  (\<^verbatim>\<open>__value__\<close>, \<^verbatim>\<open>item\<close>, \<^verbatim>\<open>key\<close>, \<^verbatim>\<open>allowedKeys\<close>, \<^verbatim>\<open>error\<close>, \<^verbatim>\<open>e\<close>, \<^verbatim>\<open>fail\<close> and the exported names).
  No property is taken to be declared under the name \<^verbatim>\<open>__proto__\<close>, the assignment to which
  sets the prototype of the new object and adds no property.
  Three kinds of type give text that is no program at all, whatever the names: a string
  literal type, whose check interpolates the quoted literal into a quoted message; a
  union type inside a union type with no alias in between, whose checks declare the label
  \<^verbatim>\<open>union\<close> inside the block of that label; and a union without members, whose type
  declaration has no right-hand side. The functions below are defined on these types as
  on the others, by the meaning that their statements have one by one.

  A literal type holds a boolean, a number or a string. Numbers are the integers here
  (the parser's number literals and the examples of the specification are integral);
  no statement below depends on arithmetic.
\<close>

datatype literal = LBool bool | LNum int | LStr string

datatype 'a ObjectProperty = ObjectProperty (ptype: 'a) (required: bool)

text \<open>
  The tagged union \<^verbatim>\<open>Type\<close>, one constructor per \<^verbatim>\<open>kind\<close>. The properties of an object
  type are listed in the order in which \<^verbatim>\<open>Object.entries\<close> enumerates them, and the
  members of a union in declared order.
\<close>

text \<open>
  Modelled from the spec: the \<^verbatim>\<open>array\<close> kind. The declaration of \<^verbatim>\<open>Type\<close> that is at hand
  lists ten kinds and has no array variant, while all four dispatches of the generator
  handle \<^verbatim>\<open>case "array"\<close> and read the element type from the field \<^verbatim>\<open>type\<close>, as the
  specification's \<^verbatim>\<open>array(element: Type)\<close> does. The constructor \<open>TArray\<close> is that variant.
\<close>

datatype Type =
    TAlias string
  | TAny
  | TArray Type
  | TBoolean
  | TLiteral literal
  | TNull
  | TNumber
  | TObject "(string \<times> Type ObjectProperty) list"
  | TString
  | TUndefined
  | TUnion "Type list"

type_synonym types = "(string \<times> Type) list"

fun kind :: "Type \<Rightarrow> string" where
  "kind (TAlias name) = ''alias''"
| "kind TAny = ''any''"
| "kind (TArray t) = ''array''"
| "kind TBoolean = ''boolean''"
| "kind (TLiteral l) = ''literal''"
| "kind TNull = ''null''"
| "kind TNumber = ''number''"
| "kind (TObject properties) = ''object''"
| "kind TString = ''string''"
| "kind TUndefined = ''undefined''"
| "kind (TUnion ts) = ''union''"

section \<open>Runtime values\<close>

text \<open>
  The values that a validator is run on are data: \<^verbatim>\<open>undefined\<close>, \<^verbatim>\<open>null\<close>, booleans,
  numbers, strings, arrays and plain objects. An array and an object carry the identity
  of the heap object they are (a natural number), so that two objects with the same
  content can be told apart; the own properties of an object are listed in enumeration
  order.

  A plain object inherits the members of \<^verbatim>\<open>Object.prototype\<close>, and an array those of
  \<^verbatim>\<open>Array.prototype\<close> and, behind them, of \<^verbatim>\<open>Object.prototype\<close>. A read of a key that is no
  own property finds them, so two more kinds of value come out of a read:
  \<open>JFunction p name\<close>, the built-in function that is the member \<open>name\<close> of the prototype
  \<open>p\<close>, and \<open>JPrototype p\<close>, the prototype itself, which the key \<^verbatim>\<open>__proto__\<close> gives.
\<close>

datatype prototype = ObjectPrototype | ArrayPrototype

datatype jsval =
    JUndefined
  | JNull
  | JBool bool
  | JNum int
  | JStr string
  | JArr nat "jsval list"
  | JObj nat "(string \<times> jsval) list"
  | JFunction prototype string
  | JPrototype prototype

definition digit :: "nat \<Rightarrow> char" where
  "digit n = ''0123456789'' ! n"

text \<open>\<^verbatim>\<open>i.toString(10)\<close> of a natural number.\<close>

fun toString :: "nat \<Rightarrow> string" where
  "toString n = (if n < 10 then [digit n] else toString (n div 10) @ [digit (n mod 10)])"

declare toString.simps [simp del]

text \<open>\<^verbatim>\<open>path.join(".")\<close>.\<close>

fun join :: "string list \<Rightarrow> string" where
  "join [] = []"
| "join [s] = s"
| "join (s # t # rest) = s @ ''.'' @ join (t # rest)"

text \<open>
  \<^verbatim>\<open>JSON.stringify\<close> of a literal, as the generator interpolates it into the message of
  the literal's check (the escapes inside a string are left as they are).
\<close>

fun stringify :: "literal \<Rightarrow> string" where
  "stringify (LBool b) = (if b then ''true'' else ''false'')"
| "stringify (LNum i) = (if i < 0 then ''-'' @ toString (nat (- i)) else toString (nat i))"
| "stringify (LStr s) = [CHR 0x22] @ s @ [CHR 0x22]"

fun literal_value :: "literal \<Rightarrow> jsval" where
  "literal_value (LBool b) = JBool b"
| "literal_value (LNum i) = JNum i"
| "literal_value (LStr s) = JStr s"

fun typeof :: "jsval \<Rightarrow> string" where
  "typeof JUndefined = ''undefined''"
| "typeof JNull = ''object''"
| "typeof (JBool b) = ''boolean''"
| "typeof (JNum i) = ''number''"
| "typeof (JStr s) = ''string''"
| "typeof (JArr a items) = ''object''"
| "typeof (JObj a entries) = ''object''"
| "typeof (JFunction p name) = ''function''"
| "typeof (JPrototype p) = ''object''"

text \<open>\<^verbatim>\<open>Array.isArray\<close>; \<^verbatim>\<open>Array.prototype\<close> is an array, with no elements.\<close>

fun isArray :: "jsval \<Rightarrow> bool" where
  "isArray (JArr a items) = True"
| "isArray (JPrototype p) = (p = ArrayPrototype)"
| "isArray _ = False"

fun elements :: "jsval \<Rightarrow> jsval list" where
  "elements (JArr a items) = items"
| "elements _ = []"

text \<open>
  \<^verbatim>\<open>Object.keys\<close>: the own enumerable property names (of an array, its indices). The
  members of a prototype are not enumerable.
\<close>

fun keys :: "jsval \<Rightarrow> string list" where
  "keys (JObj a entries) = map fst entries"
| "keys (JArr a items) = map toString [0..<length items]"
| "keys (JStr s) = map toString [0..<length s]"
| "keys _ = []"

fun element_at :: "'a list \<Rightarrow> string \<Rightarrow> 'a option" where
  "element_at xs key = map_of (zip (map toString [0..<length xs]) xs) key"

text \<open>
  The names of the function-valued members of the two prototypes (ECMAScript 2023, with
  the legacy accessors helpers of \<^verbatim>\<open>Object.prototype\<close>).
\<close>

fun members :: "prototype \<Rightarrow> string list" where
  "members ObjectPrototype =
     [''constructor'', ''hasOwnProperty'', ''isPrototypeOf'', ''propertyIsEnumerable'',
      ''toLocaleString'', ''toString'', ''valueOf'', ''__defineGetter__'', ''__defineSetter__'',
      ''__lookupGetter__'', ''__lookupSetter__'']"
| "members ArrayPrototype =
     [''constructor'', ''at'', ''concat'', ''copyWithin'', ''entries'', ''every'', ''fill'',
      ''filter'', ''find'', ''findIndex'', ''findLast'', ''findLastIndex'', ''flat'', ''flatMap'',
      ''forEach'', ''includes'', ''indexOf'', ''join'', ''keys'', ''lastIndexOf'', ''map'', ''pop'',
      ''push'', ''reduce'', ''reduceRight'', ''reverse'', ''shift'', ''slice'', ''some'', ''sort'',
      ''splice'', ''toLocaleString'', ''toReversed'', ''toSorted'', ''toSpliced'', ''toString'',
      ''unshift'', ''values'', ''with'']"

text \<open>
  \<open>found p key\<close>: what the lookup of \<open>key\<close> finds in the prototype \<open>p\<close> or behind it, and
  \<open>inherited p key\<close>: what an object with the prototype \<open>p\<close> reads under a key that is
  none of its own properties.
\<close>

fun found :: "prototype \<Rightarrow> string \<Rightarrow> jsval" where
  "found ObjectPrototype key =
     (if key \<in> set (members ObjectPrototype) then JFunction ObjectPrototype key else JUndefined)"
| "found ArrayPrototype key =
     (if key \<in> set (members ArrayPrototype) then JFunction ArrayPrototype key
      else if key \<in> set (members ObjectPrototype) then JFunction ObjectPrototype key
      else JUndefined)"

definition inherited :: "prototype \<Rightarrow> string \<Rightarrow> jsval" where
  "inherited p key = (if key = ''__proto__'' then JPrototype p else found p key)"

text \<open>
  The property read \<^verbatim>\<open>v[key]\<close> on a value that is neither \<^verbatim>\<open>undefined\<close> nor \<^verbatim>\<open>null\<close>:
  an own property, an element or the length of an array, and otherwise what the object
  inherits. The prototype of \<^verbatim>\<open>Array.prototype\<close> is \<^verbatim>\<open>Object.prototype\<close>, which has none.

  No run of the emitted statements reads a member of a boolean, a number, a string or a
  function: the checks of an object type throw before their first read, and a sanitizer
  runs after the checks of its type have passed. For these values \<open>get\<close> gives the own
  members of a string and \<^verbatim>\<open>undefined\<close> otherwise.
\<close>

fun get :: "jsval \<Rightarrow> string \<Rightarrow> jsval" where
  "get (JObj a entries) key =
     (case map_of entries key of Some x \<Rightarrow> x | None \<Rightarrow> inherited ObjectPrototype key)"
| "get (JArr a items) key =
     (if key = ''length'' then JNum (int (length items))
      else case element_at items key of Some x \<Rightarrow> x | None \<Rightarrow> inherited ArrayPrototype key)"
| "get (JPrototype ObjectPrototype) key =
     (if key = ''__proto__'' then JNull else found ObjectPrototype key)"
| "get (JPrototype ArrayPrototype) key =
     (if key = ''length'' then JNum 0
      else if key = ''__proto__'' then JPrototype ObjectPrototype
      else found ArrayPrototype key)"
| "get (JStr s) key =
     (if key = ''length'' then JNum (int (length s))
      else case element_at s key of Some c \<Rightarrow> JStr [c] | None \<Rightarrow> JUndefined)"
| "get _ key = JUndefined"

text \<open>
  The assignment \<^verbatim>\<open>obj[key] = x\<close> on the properties of a plain object, for a key other than
  \<^verbatim>\<open>__proto__\<close>. The members of \<^verbatim>\<open>Object.prototype\<close> are writable, so the assignment under
  the name of one of them adds an own property as under any other name.
\<close>

fun put :: "(string \<times> jsval) list \<Rightarrow> string \<Rightarrow> jsval \<Rightarrow> (string \<times> jsval) list" where
  "put [] key x = [(key, x)]"
| "put ((k, y) # entries) key x =
     (if k = key then (k, x) # entries else (k, y) # put entries key x)"

text \<open>The identities of the arrays and objects inside a value, and a value without them.\<close>

fun ids :: "jsval \<Rightarrow> nat list" where
  "ids (JArr a items) = a # concat (map ids items)"
| "ids (JObj a entries) = a # concat (map (\<lambda>(k, x). ids x) entries)"
| "ids _ = []"

primrec erase :: "jsval \<Rightarrow> jsval" where
  "erase JUndefined = JUndefined"
| "erase JNull = JNull"
| "erase (JBool b) = JBool b"
| "erase (JNum i) = JNum i"
| "erase (JStr s) = JStr s"
| "erase (JArr a items) = JArr 0 (map erase items)"
| "erase (JObj a entries) = JObj 0 (map (map_prod id erase) entries)"
| "erase (JFunction p name) = JFunction p name"
| "erase (JPrototype p) = JPrototype p"

section \<open>Failures\<close>

text \<open>
  What a \<^verbatim>\<open>throw\<close> raises. \<open>Message text (Some v)\<close> is the message that \<^verbatim>\<open>fail\<close> builds:
  \<open>text\<close>, a colon, a line break and the rendering of \<open>v\<close> (\<^verbatim>\<open>JSON.stringify\<close>, or the
  string coercion); \<open>Message text None\<close> is the plain string \<open>text\<close>. The other
  constructors are the faults that are no \<^verbatim>\<open>ValidationError\<close>: a reference to an
  identifier that is not declared, a property read on \<^verbatim>\<open>undefined\<close> or \<^verbatim>\<open>null\<close> or a call
  of something that is no function, and the \<^verbatim>\<open>null\<close> that \<^verbatim>\<open>throw error\<close> raises when no
  error was recorded.
\<close>

datatype message = Message string "jsval option"

datatype exn =
    ValidationError message
  | ReferenceError string
  | TypeError
  | ThrownNull

text \<open>
  A run of emitted statements: \<open>None\<close> when the recursion budget \<open>n\<close> of the model is
  used up (the statements have not come to an end within \<open>n\<close> nested calls), otherwise
  what was thrown (\<open>Inl\<close>) or the value (\<open>Inr\<close>).
\<close>

type_synonym 'a run = "(exn + 'a) option"

definition fail :: "string \<Rightarrow> jsval \<Rightarrow> unit run" where
  "fail text v = Some (Inl (ValidationError (Message text (Some v))))"

definition passed :: "unit run" where
  "passed = Some (Inr ())"

text \<open>\<open>andThen r k\<close>: the statements \<open>r\<close> followed by the statements \<open>k\<close>.\<close>

definition andThen :: "unit run \<Rightarrow> unit run \<Rightarrow> unit run" where
  "andThen r k = (case r of Some (Inr u) \<Rightarrow> k | _ \<Rightarrow> r)"

text \<open>\<^verbatim>\<open>for (const x of xs) { body }\<close>.\<close>

fun for_of :: "('a \<Rightarrow> unit run) \<Rightarrow> 'a list \<Rightarrow> unit run" where
  "for_of body [] = passed"
| "for_of body (x # xs) = andThen (body x) (for_of body xs)"

record ErrorCatcher =
  error :: message

definition createErrorCatcher :: ErrorCatcher where
  "createErrorCatcher = \<lparr>error = Message [] None\<rparr>"

record ValidateOptions =
  errorCatcher :: "ErrorCatcher option"
  allowAdditionalProperties :: "bool option"

definition no_options :: ValidateOptions where
  "no_options = \<lparr>errorCatcher = None, allowAdditionalProperties = None\<rparr>"

text \<open>
  The identifier \<^verbatim>\<open>allowAdditionalProperties\<close> is declared by the parameter list of
  \<^verbatim>\<open>validate\<close> (where it is \<^verbatim>\<open>undefined\<close> or a boolean) and nowhere else. The text of a
  validator is emitted into the body of \<^verbatim>\<open>validate\<close>, and, for the members of a union,
  into the body of \<^verbatim>\<open>create\<close> as well, where the identifier is not declared.
\<close>

datatype scope = InValidate "bool option" | InCreate

fun truthy :: "bool option \<Rightarrow> bool" where
  "truthy (Some b) = b"
| "truthy None = False"

text \<open>
  The expression that stands for the value in the emitted text, the argument \<^verbatim>\<open>value\<close> of
  \<^verbatim>\<open>generateTypeValidator\<close> and \<^verbatim>\<open>generateTypeSanitizer\<close>: the parameter \<^verbatim>\<open>__value__\<close> of the
  method, the variable \<^verbatim>\<open>item\<close> of a loop or of a callback of \<^verbatim>\<open>map\<close>, or the read
  \<^verbatim>\<open>local["name"]\<close> of a property of the local that holds an object.
\<close>

datatype expression = Param | Item | Property

section \<open>The methods of a named type\<close>

text \<open>
  The body of \<^verbatim>\<open>validate\<close> around the emitted checks \<open>checks\<close>: \<^verbatim>\<open>try { checks; return true }\<close>
  and the \<^verbatim>\<open>catch\<close> clause. The result is what the call returns or throws, and the
  error catcher as the call leaves it.
\<close>

definition validate_method ::
  "unit run \<Rightarrow> ErrorCatcher option \<Rightarrow> ((exn + bool) \<times> ErrorCatcher option) option" where
  "validate_method checks catcher =
     (case checks of
        None \<Rightarrow> None
      | Some (Inr u) \<Rightarrow> Some (Inr True, catcher)
      | Some (Inl (ValidationError m)) \<Rightarrow>
          (case catcher of
             Some c \<Rightarrow> Some (Inr False, Some (c\<lparr>error := m\<rparr>))
           | None \<Rightarrow> Some (Inl (ValidationError m), None))
      | Some (Inl e) \<Rightarrow> Some (Inl e, catcher))"

text \<open>A call used as a statement: the value it returns is dropped.\<close>

definition statement :: "((exn + bool) \<times> ErrorCatcher option) option \<Rightarrow> unit run" where
  "statement r = (case r of None \<Rightarrow> None | Some (Inl e, c) \<Rightarrow> Some (Inl e) | Some (Inr b, c) \<Rightarrow> passed)"

text \<open>
  A computation that allocates: it is given the next free identity and returns the
  next free identity with its result.
\<close>

type_synonym 'a alloc = "nat \<Rightarrow> ((exn + 'a) \<times> nat) option"

text \<open>
  The body of \<^verbatim>\<open>create\<close>: the call of \<^verbatim>\<open>validate\<close>, the \<^verbatim>\<open>throw new ValidationError()\<close> for
  a call that returned \<^verbatim>\<open>false\<close>, and the \<^verbatim>\<open>return\<close> of the emitted sanitizer expression.
\<close>

definition create_method ::
  "((exn + bool) \<times> ErrorCatcher option) option \<Rightarrow> jsval alloc \<Rightarrow> jsval alloc" where
  "create_method validated sanitized next =
     (case validated of
        None \<Rightarrow> None
      | Some (Inl e, c) \<Rightarrow> Some (Inl e, next)
      | Some (Inr ok, c) \<Rightarrow>
          (if \<not> ok then Some (Inl (ValidationError (Message [] None)), next)
           else sanitized next))"

section \<open>generateTypeValidator\<close>

text \<open>
  The \<^verbatim>\<open>union:\<close> block. \<open>caught\<close> is the local variable \<^verbatim>\<open>error\<close> (\<open>None\<close> for \<^verbatim>\<open>null\<close>);
  the list holds the runs of the members' checks, each in its \<^verbatim>\<open>try\<close>.
\<close>

fun try_each :: "exn option \<Rightarrow> unit run list \<Rightarrow> unit run" where
  "try_each caught [] = Some (Inl (case caught of None \<Rightarrow> ThrownNull | Some e \<Rightarrow> e))"
| "try_each caught (r # rs) =
     (case r of
        None \<Rightarrow> None
      | Some (Inr u) \<Rightarrow> passed
      | Some (Inl (ValidationError m)) \<Rightarrow> try_each (Some (ValidationError m)) rs
      | Some (Inl e) \<Rightarrow> Some (Inl e))"

text \<open>
  The block \<^verbatim>\<open>if (!allowAdditionalProperties) { ... }\<close> of an object type: every key of the
  value has to be a declared property name.
\<close>

definition key_checks ::
  "scope \<Rightarrow> (string \<times> Type ObjectProperty) list \<Rightarrow> jsval \<Rightarrow> string list \<Rightarrow> unit run" where
  "key_checks sc properties v path =
     (case sc of
        InCreate \<Rightarrow> Some (Inl (ReferenceError ''allowAdditionalProperties''))
      | InValidate allow \<Rightarrow>
          (if \<not> truthy allow then
             for_of (\<lambda>key.
                 if key \<notin> set (map fst properties)
                 then fail (join path @ '' does not allow key '' @ key) v else passed)
               (keys v)
           else passed))"

text \<open>
  The checks of the declared properties of an object type, in their order; \<open>check\<close> runs
  the checks of a property's type. The checks of a property that is not required are
  wrapped in \<^verbatim>\<open>if (accessor !== undefined) { ... }\<close>. The value is an object here, so
  that the property read does not throw.
\<close>

definition property_checks ::
  "(Type \<Rightarrow> jsval \<Rightarrow> string list \<Rightarrow> unit run) \<Rightarrow> jsval \<Rightarrow> string list
     \<Rightarrow> (string \<times> Type ObjectProperty) list \<Rightarrow> unit run" where
  "property_checks check v path properties =
     for_of (\<lambda>(name, property).
          if required property then check (ptype property) (get v name) (path @ [name])
          else if get v name \<noteq> JUndefined then
            check (ptype property) (get v name) (path @ [name])
          else passed)
       properties"

text \<open>
  \<open>validator n tys sc t expr v path\<close> runs the statements that
  \<^verbatim>\<open>generateTypeValidator(t, value, path)\<close> emits, with \<open>expr\<close> the expression \<^verbatim>\<open>value\<close> and
  \<open>v\<close> what it evaluates to, in the scope \<open>sc\<close> and in a module generated from the table
  \<open>tys\<close>.

  The call \<^verbatim>\<open>Name.validate(value, { allowAdditionalProperties })\<close> of an alias first
  resolves \<^verbatim>\<open>Name\<close>, then evaluates its arguments; the object literal passes no error
  catcher.

  The head of \<^verbatim>\<open>for (const item of value)\<close> evaluates \<^verbatim>\<open>value\<close> in the scope of the binding
  \<^verbatim>\<open>item\<close> that the loop declares, before that binding is initialised. When \<^verbatim>\<open>value\<close> is
  the variable \<^verbatim>\<open>item\<close> of an enclosing loop (an array type that is the element type of an
  array type, directly or as a member of a union), the head reads the new binding, and
  the read throws a \<^verbatim>\<open>ReferenceError\<close>.
\<close>

fun validator ::
  "nat \<Rightarrow> types \<Rightarrow> scope \<Rightarrow> Type \<Rightarrow> expression \<Rightarrow> jsval \<Rightarrow> string list \<Rightarrow> unit run" where
  "validator 0 tys sc t expr v path = None"
| "validator (Suc n) tys sc (TAlias name) expr v path =
     (case map_of tys name of
        None \<Rightarrow> Some (Inl (ReferenceError name))
      | Some target \<Rightarrow>
          (case sc of
             InCreate \<Rightarrow> Some (Inl (ReferenceError ''allowAdditionalProperties''))
           | InValidate allow \<Rightarrow>
               statement (validate_method (validator n tys (InValidate allow) target Param v [name]) None)))"
| "validator (Suc n) tys sc TAny expr v path = passed"
| "validator (Suc n) tys sc (TArray t) expr v path =
     (if \<not> isArray v then fail (join path @ '' is not an array'') v
      else if expr = Item then Some (Inl (ReferenceError ''item''))
      else for_of (\<lambda>item. validator n tys sc t Item item (path @ [''__item__''])) (elements v))"
| "validator (Suc n) tys sc TBoolean expr v path =
     (if typeof v \<noteq> ''boolean'' then fail (join path @ '' is not a boolean'') v else passed)"
| "validator (Suc n) tys sc (TLiteral l) expr v path =
     (if v \<noteq> literal_value l then fail (join path @ '' must equal '' @ stringify l) v else passed)"
| "validator (Suc n) tys sc TNull expr v path =
     (if v \<noteq> JNull then fail (join path @ '' is not null'') v else passed)"
| "validator (Suc n) tys sc TNumber expr v path =
     (if typeof v \<noteq> ''number'' then fail (join path @ '' is not a number'') v else passed)"
| "validator (Suc n) tys sc (TObject properties) expr v path =
     (if typeof v \<noteq> ''object'' \<or> v = JNull then fail (join path @ '' is not an object'') v
      else andThen (key_checks sc properties v path)
             (property_checks (\<lambda>t x p. validator n tys sc t Property x p) v path properties))"
| "validator (Suc n) tys sc TString expr v path =
     (if typeof v \<noteq> ''string'' then fail (join path @ '' is not a string'') v else passed)"
| "validator (Suc n) tys sc TUndefined expr v path =
     (if v \<noteq> JUndefined then fail (join path @ '' is not undefined'') v else passed)"
| "validator (Suc n) tys sc (TUnion ts) expr v path =
     try_each None
       (map (\<lambda>(i, subtype). validator n tys sc subtype expr v (path @ [toString i]))
          (enumerate 0 ts))"

text \<open>The method \<^verbatim>\<open>validate\<close> of the binding \<open>name\<close>.\<close>

definition validate ::
  "nat \<Rightarrow> types \<Rightarrow> string \<Rightarrow> jsval \<Rightarrow> ValidateOptions
     \<Rightarrow> ((exn + bool) \<times> ErrorCatcher option) option" where
  "validate n tys name v options =
     (case map_of tys name of
        None \<Rightarrow> Some (Inl (ReferenceError name), errorCatcher options)
      | Some t \<Rightarrow>
          validate_method
            (validator n tys (InValidate (allowAdditionalProperties options)) t Param v [name])
            (errorCatcher options))"

section \<open>generateTypeSanitizer\<close>

text \<open>
  \<^verbatim>\<open>(value as Array<any>).map(item => ...)\<close>: the callback on every element in turn.
\<close>

fun map_items :: "('a \<Rightarrow> 'b alloc) \<Rightarrow> 'a list \<Rightarrow> 'b list alloc" where
  "map_items f [] next = Some (Inr [], next)"
| "map_items f (x # xs) next =
     (case f x next of
        None \<Rightarrow> None
      | Some (Inl e, next') \<Rightarrow> Some (Inl e, next')
      | Some (Inr y, next') \<Rightarrow>
          (case map_items f xs next' of
             None \<Rightarrow> None
           | Some (Inl e, next'') \<Rightarrow> Some (Inl e, next'')
           | Some (Inr ys, next'') \<Rightarrow> Some (Inr (y # ys), next'')))"

text \<open>
  The property read of the sanitizer, which throws on \<^verbatim>\<open>undefined\<close> and \<^verbatim>\<open>null\<close>.
\<close>

definition member :: "jsval \<Rightarrow> string \<Rightarrow> exn + jsval" where
  "member v key = (if v = JUndefined \<or> v = JNull then Inl TypeError else Inr (get v key))"

text \<open>
  The assignments to \<^verbatim>\<open>..._sanitized\<close>, one statement per declared property; \<open>san\<close> runs
  the sanitizer expression of a property's type.
\<close>

fun assign ::
  "(Type \<Rightarrow> jsval \<Rightarrow> string list \<Rightarrow> jsval alloc) \<Rightarrow> jsval \<Rightarrow> string list
     \<Rightarrow> (string \<times> Type ObjectProperty) list \<Rightarrow> (string \<times> jsval) list
     \<Rightarrow> (string \<times> jsval) list alloc" where
  "assign san v path [] sanitized next = Some (Inr sanitized, next)"
| "assign san v path ((name, property) # rest) sanitized next =
     (case member v name of
        Inl e \<Rightarrow> Some (Inl e, next)
      | Inr x \<Rightarrow>
          (if required property \<or> x \<noteq> JUndefined then
             (case san (ptype property) x (path @ [name]) next of
                None \<Rightarrow> None
              | Some (Inl e, next') \<Rightarrow> Some (Inl e, next')
              | Some (Inr y, next') \<Rightarrow> assign san v path rest (put sanitized name y) next')
           else assign san v path rest sanitized next))"

text \<open>
  The function expression of a union: per member a \<^verbatim>\<open>try\<close> that holds the member's
  checks and the \<^verbatim>\<open>return\<close> of its sanitizer, and a \<^verbatim>\<open>catch\<close> that ignores a
  \<^verbatim>\<open>ValidationError\<close>. A function body that comes to its end returns \<^verbatim>\<open>undefined\<close>.
\<close>

fun first_valid :: "(unit run \<times> jsval alloc) list \<Rightarrow> jsval alloc" where
  "first_valid [] next = Some (Inr JUndefined, next)"
| "first_valid ((checks, sanitized) # rest) next =
     (case checks of
        None \<Rightarrow> None
      | Some (Inl (ValidationError m)) \<Rightarrow> first_valid rest next
      | Some (Inl e) \<Rightarrow> Some (Inl e, next)
      | Some (Inr u) \<Rightarrow>
          (case sanitized next of
             None \<Rightarrow> None
           | Some (Inl (ValidationError m), next') \<Rightarrow> first_valid rest next'
           | Some (Inl e, next') \<Rightarrow> Some (Inl e, next')
           | Some (Inr y, next') \<Rightarrow> Some (Inr y, next')))"

text \<open>
  \<open>sanitizer n tys t expr v path next\<close> evaluates the expression that
  \<^verbatim>\<open>generateTypeSanitizer(t, value, path)\<close> emits into the body of \<^verbatim>\<open>create\<close>, with \<open>expr\<close>
  the expression \<^verbatim>\<open>value\<close> and \<open>v\<close> what it evaluates to. The array that \<^verbatim>\<open>map\<close> returns and
  the object \<^verbatim>\<open>{}\<close> are new: they take the next free identity.
\<close>

fun sanitizer :: "nat \<Rightarrow> types \<Rightarrow> Type \<Rightarrow> expression \<Rightarrow> jsval \<Rightarrow> string list \<Rightarrow> jsval alloc" where
  "sanitizer 0 tys t expr v path next = None"
| "sanitizer (Suc n) tys (TAlias name) expr v path next =
     (case map_of tys name of
        None \<Rightarrow> Some (Inl (ReferenceError name), next)
      | Some target \<Rightarrow>
          create_method
            (validate_method (validator n tys (InValidate (Some True)) target Param v [name]) None)
            (\<lambda>next'. sanitizer n tys target Param v [name] next') next)"
| "sanitizer (Suc n) tys TAny expr v path next = Some (Inr v, next)"
| "sanitizer (Suc n) tys (TArray t) expr v path next =
     (if \<not> isArray v then Some (Inl TypeError, next)
      else case map_items (\<lambda>item next'. sanitizer n tys t Item item (path @ [''__item__'']) next')
                  (elements v) (Suc next) of
             None \<Rightarrow> None
           | Some (Inl e, next') \<Rightarrow> Some (Inl e, next')
           | Some (Inr items, next') \<Rightarrow> Some (Inr (JArr next items), next'))"
| "sanitizer (Suc n) tys TBoolean expr v path next = Some (Inr v, next)"
| "sanitizer (Suc n) tys (TLiteral l) expr v path next = Some (Inr v, next)"
| "sanitizer (Suc n) tys TNull expr v path next = Some (Inr v, next)"
| "sanitizer (Suc n) tys TNumber expr v path next = Some (Inr v, next)"
| "sanitizer (Suc n) tys (TObject properties) expr v path next =
     (case assign (\<lambda>t x p next'. sanitizer n tys t Property x p next') v path properties [] (Suc next) of
        None \<Rightarrow> None
      | Some (Inl e, next') \<Rightarrow> Some (Inl e, next')
      | Some (Inr sanitized, next') \<Rightarrow> Some (Inr (JObj next sanitized), next'))"
| "sanitizer (Suc n) tys TString expr v path next = Some (Inr v, next)"
| "sanitizer (Suc n) tys TUndefined expr v path next = Some (Inr v, next)"
| "sanitizer (Suc n) tys (TUnion ts) expr v path next =
     first_valid
       (map (\<lambda>(i, subtype).
            (validator n tys InCreate subtype expr v (path @ [toString i]),
             \<lambda>next'. sanitizer n tys subtype expr v (path @ [toString i]) next'))
          (enumerate 0 ts))
       next"

text \<open>The method \<^verbatim>\<open>create\<close> of the binding \<open>name\<close>.\<close>

definition create :: "nat \<Rightarrow> types \<Rightarrow> string \<Rightarrow> jsval \<Rightarrow> jsval alloc" where
  "create n tys name v next =
     (case map_of tys name of
        None \<Rightarrow> Some (Inl (ReferenceError name), next)
      | Some t \<Rightarrow>
          create_method
            (validate n tys name v \<lparr>errorCatcher = None, allowAdditionalProperties = Some True\<rparr>)
            (\<lambda>next'. sanitizer n tys t Param v [name] next') next)"

text \<open>
  A key under which neither a plain object nor an array inherits a member, and a value
  that is data throughout: no function and no prototype is inside it.
\<close>

definition plain :: "string \<Rightarrow> bool" where
  "plain key = (key \<noteq> ''__proto__'' \<and> key \<notin> set (members ObjectPrototype)
     \<and> key \<notin> set (members ArrayPrototype))"

fun data :: "jsval \<Rightarrow> bool" where
  "data (JFunction p name) = False"
| "data (JPrototype p) = False"
| "data (JArr a items) = (\<forall>item \<in> set items. data item)"
| "data (JObj a entries) = (\<forall>(key, x) \<in> set entries. data x)"
| "data _ = True"

text \<open>
  The keys of a \<^verbatim>\<open>Record\<close> are pairwise different. \<open>wf_Type\<close> says so of every object
  type inside a type, and that the declared property names are plain.
\<close>

fun wf_Type :: "Type \<Rightarrow> bool" where
  "wf_Type (TArray t) = wf_Type t"
| "wf_Type (TObject properties) =
     (distinct (map fst properties) \<and> list_all plain (map fst properties) \<and>
      list_all (\<lambda>(name, property). case property of ObjectProperty t r \<Rightarrow> wf_Type t) properties)"
| "wf_Type (TUnion ts) = list_all wf_Type ts"
| "wf_Type _ = True"

definition wf_types :: "types \<Rightarrow> bool" where
  "wf_types tys = list_all (\<lambda>(name, t). wf_Type t) tys"

text \<open>The runs of the members' checks of a union, in declared order.\<close>

definition member_checks ::
  "nat \<Rightarrow> types \<Rightarrow> scope \<Rightarrow> Type list \<Rightarrow> expression \<Rightarrow> jsval \<Rightarrow> string list \<Rightarrow> unit run list" where
  "member_checks n tys sc ts expr v path =
     map (\<lambda>(i, subtype). validator n tys sc subtype expr v (path @ [toString i])) (enumerate 0 ts)"

text \<open>
  The declared properties that the sanitizer of an object type copies from the value
  \<open>v\<close>: the required ones, and the others when their value is not \<^verbatim>\<open>undefined\<close>.
\<close>

definition kept :: "jsval \<Rightarrow> (string \<times> Type ObjectProperty) list \<Rightarrow> (string \<times> Type ObjectProperty) list" where
  "kept v properties = filter (\<lambda>(name, property). required property \<or> get v name \<noteq> JUndefined) properties"

text \<open>
  The identity of the array or object that a value is, and the allocator's invariant:
  every object inside \<open>v\<close> was allocated before the next free identity.
\<close>

fun identity :: "jsval \<Rightarrow> nat option" where
  "identity (JArr a items) = Some a"
| "identity (JObj a entries) = Some a"
| "identity _ = None"

definition allocated_before :: "nat \<Rightarrow> jsval \<Rightarrow> bool" where
  "allocated_before next v = list_all (\<lambda>a. a < next) (ids v)"

text \<open>The properties of an object without the key \<open>key\<close>.\<close>

definition without :: "string \<Rightarrow> (string \<times> jsval) list \<Rightarrow> (string \<times> jsval) list" where
  "without key entries = filter (\<lambda>(k, x). k \<noteq> key) entries"

text \<open>The declared properties with the type of the property \<open>key\<close> replaced by \<open>t\<close>.\<close>

definition retyped ::
  "string \<Rightarrow> Type \<Rightarrow> (string \<times> Type ObjectProperty) list \<Rightarrow> (string \<times> Type ObjectProperty) list" where
  "retyped key t properties =
     map (\<lambda>(name, property).
        if name = key then (name, ObjectProperty t (required property)) else (name, property))
       properties"

text \<open>What was thrown, and a run, with the identities erased from the offending value.\<close>

fun erase_exn :: "exn \<Rightarrow> exn" where
  "erase_exn (ValidationError (Message text x)) = ValidationError (Message text (map_option erase x))"
| "erase_exn e = e"

definition erase_run :: "unit run \<Rightarrow> unit run" where
  "erase_run r = map_option (map_sum erase_exn id) r"

text \<open>
  The members' attempts of the sanitizer of a union, in declared order: the run of the
  member's checks in the scope of \<^verbatim>\<open>create\<close>, and the member's sanitizer.
\<close>

definition attempts ::
  "nat \<Rightarrow> types \<Rightarrow> Type list \<Rightarrow> expression \<Rightarrow> jsval \<Rightarrow> string list
     \<Rightarrow> (unit run \<times> jsval alloc) list" where
  "attempts n tys ts expr v path =
     map (\<lambda>(i, subtype).
          (validator n tys InCreate subtype expr v (path @ [toString i]),
           \<lambda>next'. sanitizer n tys subtype expr v (path @ [toString i]) next'))
        (enumerate 0 ts)"

text \<open>The fault of reading the identifier that the scope of \<^verbatim>\<open>create\<close> does not declare.\<close>

definition undeclared :: "unit run" where
  "undeclared = Some (Inl (ReferenceError ''allowAdditionalProperties''))"

text \<open>
  \<open>stable n tys t expr path v r\<close>: the value \<open>r\<close>, sanitized from \<open>v\<close>, is \<^verbatim>\<open>undefined\<close> only if \<open>v\<close> is,
  and every value with the content of \<open>r\<close> passes the checks of \<open>t\<close> and is sanitized to a
  value with the content of \<open>r\<close>.
\<close>

definition stable ::
  "nat \<Rightarrow> types \<Rightarrow> Type \<Rightarrow> expression \<Rightarrow> string list \<Rightarrow> jsval \<Rightarrow> jsval \<Rightarrow> bool" where
  "stable n tys t expr path v r =
     ((v \<noteq> JUndefined \<longrightarrow> r \<noteq> JUndefined) \<and>
      (\<forall>w k. erase w = erase r \<longrightarrow>
         validator n tys (InValidate (Some True)) t expr w path = passed \<and>
         (\<exists>r2 k'. sanitizer n tys t expr w path k = Some (Inr r2, k') \<and> erase r2 = erase r)))"

section \<open>Auxiliary facts\<close>

lemma statement_validate_method [simp]: "statement (validate_method r None) = r"
  by (auto simp: statement_def validate_method_def passed_def split: option.splits sum.splits exn.splits)

lemma create_method_validate_method:
  "create_method (validate_method r None) s next =
     (case r of None \<Rightarrow> None | Some (Inl e) \<Rightarrow> Some (Inl e, next) | Some (Inr u) \<Rightarrow> s next)"
  by (auto simp: create_method_def validate_method_def split: option.splits sum.splits exn.splits)

lemma andThen_passed [simp]: "andThen passed k = k"
  by (simp add: andThen_def passed_def)

lemma andThen_eq_passed [simp]: "andThen r k = passed \<longleftrightarrow> r = passed \<and> k = passed"
  by (auto simp: andThen_def passed_def split: option.splits sum.splits)

lemma andThen_not_passed: "r \<noteq> passed \<Longrightarrow> andThen r k = r"
  by (auto simp: andThen_def passed_def split: option.splits sum.splits)

lemma fail_not_passed [simp]: "fail text v \<noteq> passed" "passed \<noteq> fail text v"
  by (simp_all add: fail_def passed_def)

lemma thrown_not_passed [simp]: "Some (Inl e) \<noteq> passed" "passed \<noteq> Some (Inl e)"
  by (simp_all add: passed_def)

lemma for_of_eq_passed: "for_of body xs = passed \<longleftrightarrow> (\<forall>x \<in> set xs. body x = passed)"
  by (induction xs) auto

lemma for_of_first_failure:
  "for_of body xs \<noteq> passed \<Longrightarrow>
     \<exists>ys x zs. xs = ys @ x # zs \<and> (\<forall>y \<in> set ys. body y = passed) \<and> body x \<noteq> passed
        \<and> for_of body xs = body x"
proof (induction xs)
  case Nil
  then show ?case by simp
next
  case (Cons a xs)
  show ?case
  proof (cases "body a = passed")
    case True
    with Cons.prems have "for_of body xs \<noteq> passed" by simp
    from Cons.IH[OF this] obtain ys x zs where
      "xs = ys @ x # zs" "\<forall>y\<in>set ys. body y = passed" "body x \<noteq> passed" "for_of body xs = body x"
      by blast
    with True have "a # xs = (a # ys) @ x # zs \<and> (\<forall>y\<in>set (a # ys). body y = passed) \<and> body x \<noteq> passed
        \<and> for_of body (a # xs) = body x" by simp
    then show ?thesis by blast
  next
    case False
    then have "a # xs = [] @ a # xs \<and> (\<forall>y\<in>set []. body y = passed) \<and> body a \<noteq> passed
        \<and> for_of body (a # xs) = body a" by (simp add: andThen_not_passed)
    then show ?thesis by blast
  qed
qed

lemma try_each_pass:
  "i < length rs \<Longrightarrow> rs ! i = passed
     \<Longrightarrow> (\<forall>j < i. \<exists>m. rs ! j = Some (Inl (ValidationError m)))
     \<Longrightarrow> try_each caught rs = passed"
proof (induction rs arbitrary: i caught)
  case Nil
  then show ?case by simp
next
  case (Cons r rs)
  show ?case
  proof (cases i)
    case 0
    with Cons.prems show ?thesis by (simp add: passed_def)
  next
    case (Suc k)
    with Cons.prems obtain m where m: "r = Some (Inl (ValidationError m))" by fastforce
    have "try_each (Some (ValidationError m)) rs = passed"
    proof (rule Cons.IH[of k])
      show "k < length rs" using Cons.prems Suc by simp
      show "rs ! k = passed" using Cons.prems Suc by simp
      show "\<forall>j<k. \<exists>m. rs ! j = Some (Inl (ValidationError m))"
        using Cons.prems(3) Suc by (metis Suc_less_eq nth_Cons_Suc)
    qed
    with m show ?thesis by simp
  qed
qed

lemma try_each_all_fail:
  "rs \<noteq> [] \<Longrightarrow> (\<forall>r \<in> set rs. \<exists>m. r = Some (Inl (ValidationError m)))
     \<Longrightarrow> try_each caught rs = last rs"
proof (induction rs arbitrary: caught)
  case Nil
  then show ?case by simp
next
  case (Cons r rs)
  then obtain m where m: "r = Some (Inl (ValidationError m))" by auto
  show ?case
  proof (cases "rs = []")
    case True
    with m show ?thesis by simp
  next
    case False
    with Cons m show ?thesis by simp
  qed
qed

lemma try_each_passed_conv:
  "try_each caught rs = passed \<Longrightarrow>
     \<exists>i < length rs. rs ! i = passed \<and> (\<forall>j < i. \<exists>m. rs ! j = Some (Inl (ValidationError m)))"
proof (induction rs arbitrary: caught)
  case Nil
  then show ?case by (simp add: passed_def)
next
  case (Cons r rs)
  show ?case
  proof (cases "r = passed")
    case True
    then have "0 < length (r # rs) \<and> (r # rs) ! 0 = passed \<and> (\<forall>j<0. \<exists>m. (r # rs) ! j = Some (Inl (ValidationError m)))"
      by simp
    then show ?thesis by blast
  next
    case False
    have "\<exists>m. r = Some (Inl (ValidationError m)) \<and> try_each (Some (ValidationError m)) rs = passed"
    proof (cases r)
      case None
      with Cons.prems show ?thesis by (simp add: passed_def)
    next
      case (Some s)
      show ?thesis
      proof (cases s)
        case (Inl e)
        with Some Cons.prems show ?thesis by (cases e) (simp_all add: passed_def)
      next
        case (Inr u)
        with Some False show ?thesis by (simp add: passed_def)
      qed
    qed
    then obtain m where m: "r = Some (Inl (ValidationError m))"
      and t: "try_each (Some (ValidationError m)) rs = passed" by blast
    from Cons.IH[OF t] obtain i where i: "i < length rs" "rs ! i = passed"
      "\<forall>j<i. \<exists>m. rs ! j = Some (Inl (ValidationError m))" by blast
    have "\<forall>j<Suc i. \<exists>m. (r # rs) ! j = Some (Inl (ValidationError m))"
      using i(3) m by (auto simp: nth_Cons split: nat.splits)
    with i have "Suc i < length (r # rs) \<and> (r # rs) ! Suc i = passed \<and> (\<forall>j<Suc i. \<exists>m. (r # rs) ! j = Some (Inl (ValidationError m)))"
      by simp
    then show ?thesis by blast
  qed
qed


lemma length_member_checks [simp]: "length (member_checks n tys sc ts expr v path) = length ts"
  by (simp add: member_checks_def)

lemma nth_member_checks [simp]:
  "i < length ts \<Longrightarrow> member_checks n tys sc ts expr v path ! i = validator n tys sc (ts ! i) expr v (path @ [toString i])"
  by (simp add: member_checks_def nth_enumerate_eq)

lemma validator_TUnion: "validator (Suc n) tys sc (TUnion ts) expr v path = try_each None (member_checks n tys sc ts expr v path)"
  by (simp add: member_checks_def)

lemma put_fresh: "key \<notin> fst ` set entries \<Longrightarrow> put entries key x = entries @ [(key, x)]"
  by (induction entries) auto

lemma member_Inr: "member v key = Inr x \<Longrightarrow> x = get v key"
  by (auto simp: member_def split: if_splits)

lemma assign_Inr:
  "assign san v path properties acc next = Some (Inr out, next') \<Longrightarrow>
   distinct (map fst properties) \<Longrightarrow> fst ` set acc \<inter> fst ` set properties = {} \<Longrightarrow>
     \<exists>ys. out = acc @ ys \<and>
       list_all2 (\<lambda>(name, property) (key, y). key = name \<and>
           (\<exists>m m'. san (ptype property) (get v name) (path @ [name]) m = Some (Inr y, m')))
         (kept v properties) ys"
proof (induction properties arbitrary: acc "next")
  case Nil
  then show ?case by (simp add: kept_def)
next
  case (Cons np rest)
  obtain name property where np: "np = (name, property)" by (cases np)
  from Cons.prems(1) np obtain x where x: "member v name = Inr x"
    by (cases "member v name") auto
  then have gx: "x = get v name" by (rule member_Inr)
  from Cons.prems(2) np have d: "distinct (map fst rest)" and nr: "name \<notin> fst ` set rest" by auto
  from Cons.prems(3) np have na: "name \<notin> fst ` set acc" by auto
  show ?case
  proof (cases "required property \<or> x \<noteq> JUndefined")
    case True
    with Cons.prems(1) np x obtain y n1 where
      s: "san (ptype property) x (path @ [name]) next = Some (Inr y, n1)"
      and a: "assign san v path rest (put acc name y) n1 = Some (Inr out, next')"
      by (auto split: option.splits sum.splits prod.splits)
    have p: "put acc name y = acc @ [(name, y)]" using na by (rule put_fresh)
    have "fst ` set (acc @ [(name, y)]) \<inter> fst ` set rest = {}"
      using Cons.prems(3) np nr by auto
    from Cons.IH[OF a[unfolded p] d this] obtain ys where
      ys: "out = (acc @ [(name, y)]) @ ys"
        "list_all2 (\<lambda>(name, property) (key, y). key = name \<and>
           (\<exists>m m'. san (ptype property) (get v name) (path @ [name]) m = Some (Inr y, m')))
         (kept v rest) ys" by blast
    have k: "kept v (np # rest) = (name, property) # kept v rest"
      using True gx np by (simp add: kept_def)
    have "out = acc @ ((name, y) # ys) \<and>
       list_all2 (\<lambda>(name, property) (key, y). key = name \<and>
           (\<exists>m m'. san (ptype property) (get v name) (path @ [name]) m = Some (Inr y, m')))
         (kept v (np # rest)) ((name, y) # ys)"
      using ys s gx k by auto
    then show ?thesis by blast
  next
    case False
    with Cons.prems(1) np x have a: "assign san v path rest acc next = Some (Inr out, next')"
      by auto
    have "fst ` set acc \<inter> fst ` set rest = {}" using Cons.prems(3) by auto
    from Cons.IH[OF a d this] obtain ys where
      ys: "out = acc @ ys"
        "list_all2 (\<lambda>(name, property) (key, y). key = name \<and>
           (\<exists>m m'. san (ptype property) (get v name) (path @ [name]) m = Some (Inr y, m')))
         (kept v rest) ys" by blast
    have k: "kept v (np # rest) = kept v rest"
      using False gx np by (simp add: kept_def)
    show ?thesis using ys k by auto
  qed
qed

lemma list_all2_keys:
  "list_all2 (\<lambda>(name, property) (key, y). key = name \<and> Q name property y) xs ys \<Longrightarrow> map fst ys = map fst xs"
  by (induction xs ys rule: list_all2_induct) auto

lemma list_all2_lookup:
  "list_all2 (\<lambda>(name, property) (key, y). key = name \<and> Q name property y) xs ys \<Longrightarrow>
   distinct (map fst xs) \<Longrightarrow> (name, property) \<in> set xs \<Longrightarrow>
     \<exists>y. map_of ys name = Some y \<and> Q name property y"
proof (induction xs ys rule: list_all2_induct)
  case Nil
  then show ?case by simp
next
  case (Cons x xs y ys)
  then show ?case by (cases x; cases y) (auto simp: rev_image_eqI)
qed

lemma create_method_Inr:
  "create_method validated sanitized next = Some (Inr r, next') \<Longrightarrow>
     (\<exists>c. validated = Some (Inr True, c)) \<and> sanitized next = Some (Inr r, next')"
  by (auto simp: create_method_def split: option.splits sum.splits prod.splits if_splits)

lemma sanitizer_TObject_Inr:
  assumes "sanitizer (Suc n) tys (TObject properties) expr v path next = Some (Inr r, next')"
    and "distinct (map fst properties)"
  shows "\<exists>entries. r = JObj next entries \<and>
       list_all2 (\<lambda>(name, property) (key, y). key = name \<and>
           (\<exists>m m'. sanitizer n tys (ptype property) Property (get v name) (path @ [name]) m = Some (Inr y, m')))
         (kept v properties) entries"
proof -
  from assms(1) obtain out where
    a: "assign (\<lambda>t x p next'. sanitizer n tys t Property x p next') v path properties [] (Suc next) = Some (Inr out, next')"
    and r: "r = JObj next out"
    by (auto split: option.splits sum.splits prod.splits)
  from assign_Inr[OF a assms(2)] r show ?thesis by auto
qed

lemma allocated_before_fresh: "allocated_before next v \<Longrightarrow> next \<notin> set (ids v)"
  by (auto simp: allocated_before_def list_all_iff)

lemma for_of_cong: "(\<And>x. x \<in> set xs \<Longrightarrow> f x = g x) \<Longrightarrow> for_of f xs = for_of g xs"
  by (induction xs) auto

lemma for_of_map: "for_of f (map h xs) = for_of (\<lambda>x. f (h x)) xs"
  by (induction xs) auto

lemma map_of_without: "map_of (without key entries) k = (if k = key then None else map_of entries k)"
  by (induction entries) (auto simp: without_def)

lemma inherited_plain [simp]: "plain key \<Longrightarrow> inherited p key = JUndefined"
  by (cases p) (simp_all add: inherited_def plain_def)

lemma erase_inherited [simp]: "erase (inherited p key) = inherited p key"
  by (cases p) (simp_all add: inherited_def)

lemma erase_found [simp]: "erase (found p key) = found p key"
  by (cases p) simp_all

lemma get_without:
  "map_of entries key = Some JUndefined \<Longrightarrow> plain key \<Longrightarrow>
     get (JObj a (without key entries)) k = get (JObj a entries) k"
  by (simp add: map_of_without)

lemma keys_loop_passed:
  "(for_of (\<lambda>key. if key \<notin> A then fail (text key) v else passed) ks = passed) = (set ks \<subseteq> A)"
  by (induction ks) auto

lemma key_checks_passed:
  "(key_checks sc properties v path = passed) =
     (\<exists>allow. sc = InValidate allow \<and> (truthy allow \<or> set (keys v) \<subseteq> fst ` set properties))"
proof (cases sc)
  case (InValidate allow)
  then show ?thesis by (simp add: key_checks_def keys_loop_passed)
next
  case InCreate
  then show ?thesis by (simp add: key_checks_def passed_def)
qed

lemma property_checks_cong:
  assumes "\<And>k. get w k = get v k"
  shows "property_checks check w path properties = property_checks check v path properties"
proof -
  have "get w = get v" by (rule ext) (rule assms)
  then show ?thesis unfolding property_checks_def by (rule arg_cong)
qed

lemma property_checks_retyped:
  assumes "distinct (map fst properties)" and "(key, property) \<in> set properties"
    and "\<not> required property" and "get v key = JUndefined"
  shows "property_checks check v path (retyped key t properties) = property_checks check v path properties"
proof -
  have only: "\<And>p. (key, p) \<in> set properties \<Longrightarrow> p = property"
    using assms(1,2) by (meson eq_key_imp_eq_value)
  let ?check = "\<lambda>(name, p).
          if required p then check (ptype p) (get v name) (path @ [name])
          else if get v name \<noteq> JUndefined then check (ptype p) (get v name) (path @ [name])
          else passed"
  have "for_of ?check (retyped key t properties)
      = for_of (\<lambda>np. ?check (case np of (name, p) \<Rightarrow>
          if name = key then (name, ObjectProperty t (required p)) else (name, p))) properties"
    unfolding retyped_def by (rule for_of_map)
  also have "\<dots> = for_of ?check properties"
  proof (rule for_of_cong)
    fix np assume np: "np \<in> set properties"
    obtain name p where [simp]: "np = (name, p)" by (cases np)
    show "?check (case np of (name, p) \<Rightarrow>
          if name = key then (name, ObjectProperty t (required p)) else (name, p)) = ?check np"
    proof (cases "name = key")
      case True
      with np only have "p = property" by simp
      with True assms(3,4) show ?thesis by simp
    next
      case False
      then show ?thesis by simp
    qed
  qed
  finally show ?thesis by (simp add: property_checks_def)
qed

lemma assign_cong:
  "\<forall>np \<in> set properties. member v (fst np) = member w (fst np) \<Longrightarrow>
     assign san v path properties acc next = assign san w path properties acc next"
proof (induction properties arbitrary: acc "next")
  case Nil
  show ?case by simp
next
  case (Cons np rest)
  obtain name property where np: "np = (name, property)" by (cases np)
  have m: "member v name = member w name" using Cons.prems np by simp
  have r: "\<And>acc next. assign san v path rest acc next = assign san w path rest acc next"
    using Cons.IH Cons.prems by simp
  show ?case unfolding np
    by (simp add: m r split: sum.splits option.splits prod.splits)
qed

lemma retyped_keys [simp]: "map fst (retyped key t properties) = map fst properties"
  by (induction properties) (auto simp: retyped_def)

lemma andThen_Inl:
  "andThen r k = Some (Inl e) \<Longrightarrow> r = Some (Inl e) \<or> (r = passed \<and> k = Some (Inl e))"
  by (auto simp: andThen_def passed_def split: option.splits sum.splits)

lemma for_of_Inl: "for_of body xs = Some (Inl e) \<Longrightarrow> \<exists>x \<in> set xs. body x = Some (Inl e)"
proof (induction xs)
  case Nil
  then show ?case by (simp add: passed_def)
next
  case (Cons x xs)
  from andThen_Inl[of "body x" "for_of body xs" e] Cons show ?case by auto
qed

lemma try_each_ValidationError:
  "try_each caught rs = Some (Inl (ValidationError m)) \<Longrightarrow>
     \<forall>r \<in> set rs. \<exists>m'. r = Some (Inl (ValidationError m'))"
proof (induction rs arbitrary: caught)
  case Nil
  then show ?case by simp
next
  case (Cons r rs)
  show ?case
  proof (cases r)
    case None
    with Cons.prems show ?thesis by simp
  next
    case (Some s)
    show ?thesis
    proof (cases s)
      case (Inl e)
      with Some Cons show ?thesis by (cases e) auto
    next
      case (Inr u)
      with Some Cons.prems show ?thesis by (simp add: passed_def)
    qed
  qed
qed

lemma property_checks_passed:
  "(property_checks check v path properties = passed) =
     (\<forall>(name, property) \<in> set properties. required property \<or> get v name \<noteq> JUndefined \<longrightarrow>
        check (ptype property) (get v name) (path @ [name]) = passed)"
  unfolding property_checks_def for_of_eq_passed by (auto split: if_splits)

lemma property_checks_Inl:
  "property_checks check v path properties = Some (Inl e) \<Longrightarrow>
     \<exists>(name, property) \<in> set properties. (required property \<or> get v name \<noteq> JUndefined) \<and>
        check (ptype property) (get v name) (path @ [name]) = Some (Inl e)"
  unfolding property_checks_def
  by (drule for_of_Inl) (force simp: passed_def split: if_splits)

lemma key_checks_lenient [simp]: "key_checks (InValidate (Some True)) properties v path = passed"
  by (simp add: key_checks_def)

lemma strict_passed_lenient:
  "validator n tys (InValidate allow) t expr v path = passed \<Longrightarrow>
     validator n tys (InValidate (Some True)) t expr v path \<noteq> Some (Inl (ValidationError m))"
proof (induction n arbitrary: expr t v path m)
  case 0
  then show ?case by (simp add: passed_def)
next
  case (Suc n)
  show ?case
  proof (cases t)
    case (TAlias name)
    with Suc show ?thesis by (auto split: option.splits)
  next
    case (TArray elem)
    show ?thesis
    proof
      assume f: "validator (Suc n) tys (InValidate (Some True)) t expr v path = Some (Inl (ValidationError m))"
      from Suc.prems TArray have a: "isArray v"
        and p: "\<forall>item \<in> set (elements v). validator n tys (InValidate allow) elem Item item (path @ [''__item__'']) = passed"
        by (auto simp: for_of_eq_passed split: if_splits)
      from f TArray a obtain item where "item \<in> set (elements v)"
        "validator n tys (InValidate (Some True)) elem Item item (path @ [''__item__'']) = Some (Inl (ValidationError m))"
        by (auto dest: for_of_Inl split: if_splits)
      with p Suc.IH show False by blast
    qed
  next
    case (TObject properties)
    show ?thesis
    proof
      assume f: "validator (Suc n) tys (InValidate (Some True)) t expr v path = Some (Inl (ValidationError m))"
      from Suc.prems TObject have o: "\<not> (typeof v \<noteq> ''object'' \<or> v = JNull)"
        and p: "property_checks (\<lambda>t x p. validator n tys (InValidate allow) t Property x p) v path properties = passed"
        by (auto split: if_splits)
      from f TObject o have
        "property_checks (\<lambda>t x p. validator n tys (InValidate (Some True)) t Property x p) v path properties
           = Some (Inl (ValidationError m))"
        by (auto split: if_splits)
      from property_checks_Inl[OF this] obtain name property where
        "(name, property) \<in> set properties" "required property \<or> get v name \<noteq> JUndefined"
        "validator n tys (InValidate (Some True)) (ptype property) Property (get v name) (path @ [name])
           = Some (Inl (ValidationError m))" by auto
      moreover from this p have
        "validator n tys (InValidate allow) (ptype property) Property (get v name) (path @ [name]) = passed"
        unfolding property_checks_passed by auto
      ultimately show False using Suc.IH by blast
    qed
  next
    case (TUnion ts)
    show ?thesis
    proof
      assume f: "validator (Suc n) tys (InValidate (Some True)) t expr v path = Some (Inl (ValidationError m))"
      from Suc.prems TUnion have "try_each None (member_checks n tys (InValidate allow) ts expr v path) = passed"
        by (simp only: validator_TUnion)
      from try_each_passed_conv[OF this] obtain i where i: "i < length ts"
        "validator n tys (InValidate allow) (ts ! i) expr v (path @ [toString i]) = passed" by auto
      from f TUnion have
        "try_each None (member_checks n tys (InValidate (Some True)) ts expr v path) = Some (Inl (ValidationError m))"
        by (simp only: validator_TUnion)
      from try_each_ValidationError[OF this] i(1) obtain m' where
        "validator n tys (InValidate (Some True)) (ts ! i) expr v (path @ [toString i]) = Some (Inl (ValidationError m'))"
        by (metis length_member_checks nth_mem nth_member_checks)
      with i(2) Suc.IH show False by blast
    qed
  qed (use Suc.prems in \<open>auto simp: fail_def passed_def split: if_splits\<close>)
qed

lemma map_items_Inl:
  "map_items f xs next = Some (Inl e, next') \<Longrightarrow> \<exists>x \<in> set xs. \<exists>k k'. f x k = Some (Inl e, k')"
proof (induction xs arbitrary: "next")
  case Nil
  then show ?case by simp
next
  case (Cons x xs)
  show ?case
  proof (cases "f x next")
    case None
    with Cons.prems show ?thesis by simp
  next
    case (Some rk)
    obtain r k where rk: "rk = (r, k)" by (cases rk)
    show ?thesis
    proof (cases r)
      case (Inl e')
      with Some rk Cons.prems have "f x next = Some (Inl e, next')" by simp
      then show ?thesis by auto
    next
      case (Inr y)
      with Some rk Cons.prems have "map_items f xs k = Some (Inl e, next')"
        by (auto split: option.splits sum.splits prod.splits)
      from Cons.IH[OF this] show ?thesis by auto
    qed
  qed
qed

lemma assign_Inl:
  "assign san v path properties acc next = Some (Inl e, next') \<Longrightarrow>
     (e = TypeError \<and> (v = JUndefined \<or> v = JNull)) \<or>
     (\<exists>(name, property) \<in> set properties. (required property \<or> get v name \<noteq> JUndefined) \<and>
        (\<exists>k k'. san (ptype property) (get v name) (path @ [name]) k = Some (Inl e, k')))"
proof (induction properties arbitrary: acc "next")
  case Nil
  then show ?case by simp
next
  case (Cons np rest)
  obtain name property where np: "np = (name, property)" by (cases np)
  show ?case
  proof (cases "v = JUndefined \<or> v = JNull")
    case True
    with Cons.prems np show ?thesis by (auto simp: member_def)
  next
    case False
    then have m: "member v name = Inr (get v name)" by (simp add: member_def)
    show ?thesis
    proof (cases "required property \<or> get v name \<noteq> JUndefined")
      case keep: True
      show ?thesis
      proof (cases "san (ptype property) (get v name) (path @ [name]) next")
        case None
        with Cons.prems np m keep show ?thesis by auto
      next
        case (Some rk)
        obtain r k where rk: "rk = (r, k)" by (cases rk)
        show ?thesis
        proof (cases r)
          case (Inl e')
          with Some rk Cons.prems np m keep
          have "san (ptype property) (get v name) (path @ [name]) next = Some (Inl e, next')" by auto
          with keep np show ?thesis by auto
        next
          case (Inr y)
          with Some rk Cons.prems np m keep
          have "assign san v path rest (put acc name y) k = Some (Inl e, next')" by auto
          from Cons.IH[OF this] show ?thesis by auto
        qed
      qed
    next
      case drop: False
      with Cons.prems np m have "assign san v path rest acc next = Some (Inl e, next')" by auto
      from Cons.IH[OF this] show ?thesis by auto
    qed
  qed
qed

lemma first_valid_no_ValidationError:
  "first_valid as next \<noteq> Some (Inl (ValidationError m), next')"
proof (induction as arbitrary: "next")
  case Nil
  show ?case by simp
next
  case (Cons a as)
  obtain checks sanitized where a: "a = (checks, sanitized)" by (cases a)
  show ?case unfolding a using Cons.IH
    by (auto split: option.splits sum.splits exn.splits prod.splits)
qed

lemma put_keys: "fst ` set (put entries key x) = insert key (fst ` set entries)"
proof (induction entries)
  case Nil
  show ?case by simp
next
  case (Cons e entries)
  obtain k y where "e = (k, y)" by (cases e)
  with Cons show ?case by (cases "k = key") (simp_all add: insert_commute)
qed

lemma assign_keys:
  "assign san v path properties acc next = Some (Inr out, next') \<Longrightarrow>
     fst ` set out \<subseteq> fst ` set acc \<union> fst ` set properties"
proof (induction properties arbitrary: acc "next")
  case Nil
  then show ?case by simp
next
  case (Cons np rest)
  obtain name property where np: "np = (name, property)" by (cases np)
  from Cons.prems np obtain x where x: "member v name = Inr x"
    by (cases "member v name") auto
  show ?case
  proof (cases "required property \<or> x \<noteq> JUndefined")
    case True
    with Cons.prems np x obtain y k where
      "assign san v path rest (put acc name y) k = Some (Inr out, next')"
      by (auto split: option.splits sum.splits prod.splits)
    from Cons.IH[OF this] np show ?thesis by (auto simp: put_keys)
  next
    case False
    with Cons.prems np x have "assign san v path rest acc next = Some (Inr out, next')" by auto
    from Cons.IH[OF this] np show ?thesis by auto
  qed
qed

lemma sanitizer_no_ValidationError:
  "validator n tys (InValidate (Some True)) t expr v path = passed \<Longrightarrow>
     sanitizer n tys t expr v path next \<noteq> Some (Inl (ValidationError m), next')"
proof (induction n arbitrary: expr t v path "next" next' m)
  case 0
  then show ?case by simp
next
  case (Suc n)
  show ?case
  proof (cases t)
    case (TAlias name)
    with Suc show ?thesis
      by (auto simp: create_method_validate_method passed_def split: option.splits)
  next
    case (TArray elem)
    show ?thesis
    proof
      assume f: "sanitizer (Suc n) tys t expr v path next = Some (Inl (ValidationError m), next')"
      from Suc.prems TArray have a: "isArray v"
        and p: "\<forall>item \<in> set (elements v). validator n tys (InValidate (Some True)) elem Item item (path @ [''__item__'']) = passed"
        by (auto simp: for_of_eq_passed split: if_splits)
      from f TArray a have "map_items (\<lambda>item next'. sanitizer n tys elem Item item (path @ [''__item__'']) next')
          (elements v) (Suc next) = Some (Inl (ValidationError m), next')"
        by (auto split: option.splits sum.splits prod.splits)
      from map_items_Inl[OF this] p Suc.IH show False by blast
    qed
  next
    case (TObject properties)
    show ?thesis
    proof
      assume f: "sanitizer (Suc n) tys t expr v path next = Some (Inl (ValidationError m), next')"
      from Suc.prems TObject have
        p: "property_checks (\<lambda>t x p. validator n tys (InValidate (Some True)) t Property x p) v path properties = passed"
        by (auto split: if_splits)
      from f TObject have "assign (\<lambda>t x p next'. sanitizer n tys t Property x p next') v path properties [] (Suc next)
          = Some (Inl (ValidationError m), next')"
        by (auto split: option.splits sum.splits prod.splits)
      from assign_Inl[OF this] obtain name property k k' where
        "(name, property) \<in> set properties" "required property \<or> get v name \<noteq> JUndefined"
        "sanitizer n tys (ptype property) Property (get v name) (path @ [name]) k = Some (Inl (ValidationError m), k')"
        by auto
      moreover from this p have
        "validator n tys (InValidate (Some True)) (ptype property) Property (get v name) (path @ [name]) = passed"
        unfolding property_checks_passed by auto
      ultimately show False using Suc.IH by blast
    qed
  next
    case (TUnion ts)
    then show ?thesis by (simp add: first_valid_no_ValidationError)
  qed simp_all
qed

lemma validate_method_True:
  "validate_method checks catcher = Some (Inr True, c) \<Longrightarrow> checks = passed"
  by (auto simp: validate_method_def passed_def split: option.splits sum.splits exn.splits)

lemma validate_True:
  "validate n tys name v options = Some (Inr True, c) \<Longrightarrow>
     \<exists>t. map_of tys name = Some t \<and>
       validator n tys (InValidate (allowAdditionalProperties options)) t Param v [name] = passed"
  by (auto simp: validate_def split: option.splits dest: validate_method_True)

lemma create_Inr:
  "create n tys name v next = Some (Inr r, next') \<Longrightarrow>
     \<exists>t. map_of tys name = Some t \<and>
       validator n tys (InValidate (Some True)) t Param v [name] = passed \<and>
       sanitizer n tys t Param v [name] next = Some (Inr r, next')"
  unfolding create_def
  by (auto split: option.splits dest!: create_method_Inr validate_True)

lemma erase_erase [simp]: "erase (erase v) = erase v"
  by (induction v) (auto simp: map_prod_def split: prod.splits)

lemma typeof_erase [simp]: "typeof (erase v) = typeof v"
  by (cases v) simp_all

lemma isArray_erase [simp]: "isArray (erase v) = isArray v"
  by (cases v) simp_all

lemma elements_erase [simp]: "elements (erase v) = map erase (elements v)"
  by (cases v) simp_all

lemma keys_erase [simp]: "keys (erase v) = keys v"
  by (cases v) (simp_all add: comp_def)

lemma erase_eq_JNull [simp]: "(erase v = JNull) = (v = JNull)"
  by (cases v) simp_all

lemma erase_eq_JUndefined [simp]: "(erase v = JUndefined) = (v = JUndefined)"
  by (cases v) simp_all

lemma erase_eq_literal [simp]: "(erase v = literal_value l) = (v = literal_value l)"
  by (cases v; cases l) simp_all

lemma map_of_erase: "map_of (map (map_prod id erase) entries) key = map_option erase (map_of entries key)"
  by (induction entries) auto

lemma map_of_zip_map: "map_of (zip ks (map f xs)) key = map_option f (map_of (zip ks xs) key)"
proof (induction xs arbitrary: ks)
  case Nil
  show ?case by simp
next
  case (Cons x xs)
  show ?case by (cases ks) (simp_all add: Cons)
qed

lemma element_at_map: "element_at (map f xs) key = map_option f (element_at xs key)"
  by (simp add: map_of_zip_map)

lemma get_erase: "get (erase v) key = erase (get v key)"
proof (cases v)
  case (JArr a items)
  then show ?thesis
    by (cases "element_at items key") (simp_all add: element_at_map del: element_at.simps)
next
  case (JObj a entries)
  then show ?thesis
    by (cases "map_of entries key") (simp_all add: map_of_erase)
next
  case (JStr s)
  then show ?thesis
    by (cases "element_at s key") (simp_all del: element_at.simps)
next
  case (JPrototype p)
  then show ?thesis by (cases p) simp_all
qed simp_all

lemma data_erase [simp]: "data (erase v) = data v"
  by (induction v) (auto simp: map_prod_def split: prod.splits)

lemma data_erase_eq: "erase w = erase v \<Longrightarrow> data w = data v"
  by (metis data_erase)

lemma element_at_Some: "element_at xs key = Some x \<Longrightarrow> x \<in> set xs"
  by (auto dest!: map_of_SomeD set_zip_rightD)

lemma data_get: "data v \<Longrightarrow> plain key \<Longrightarrow> data (get v key)"
proof (cases v)
  case (JArr a items)
  assume "data v" "plain key"
  with JArr show ?thesis
    by (auto simp del: element_at.simps dest: element_at_Some split: option.splits)
next
  case (JObj a entries)
  assume "data v" "plain key"
  with JObj show ?thesis by (auto dest!: map_of_SomeD split: option.splits)
next
  case (JStr s)
  then show ?thesis by (simp split: option.splits)
qed simp_all

lemma erase_run_passed [simp]: "erase_run passed = passed"
  by (simp add: erase_run_def passed_def)

lemma erase_run_eq_passed [simp]: "(erase_run r = passed) = (r = passed)"
  by (cases r) (auto simp: erase_run_def passed_def map_sum_def split: sum.splits)

lemma erase_run_fail [simp]: "erase_run (fail text (erase v)) = erase_run (fail text v)"
  by (simp add: erase_run_def fail_def)

lemma erase_run_andThen:
  "erase_run r = erase_run r' \<Longrightarrow> erase_run k = erase_run k' \<Longrightarrow>
     erase_run (andThen r k) = erase_run (andThen r' k')"
  by (cases "r = passed"; cases "r' = passed") (auto simp: andThen_not_passed dest: sym)

lemma erase_run_for_of:
  "(\<And>x. x \<in> set xs \<Longrightarrow> erase_run (f x) = erase_run (g x)) \<Longrightarrow>
     erase_run (for_of f xs) = erase_run (for_of g xs)"
  by (induction xs) (auto intro: erase_run_andThen)

lemma erase_run_key_checks:
  "erase_run (key_checks sc properties (erase v) path) = erase_run (key_checks sc properties v path)"
proof (cases sc)
  case (InValidate allow)
  then show ?thesis
    by (auto simp: key_checks_def intro!: erase_run_for_of)
next
  case InCreate
  then show ?thesis by (simp add: key_checks_def)
qed

lemma erase_run_property_checks:
  assumes "\<And>t x p. erase_run (c t (erase x) p) = erase_run (c' t x p)"
  shows "erase_run (property_checks c (erase v) path properties)
       = erase_run (property_checks c' v path properties)"
  unfolding property_checks_def
  by (rule erase_run_for_of) (auto simp: get_erase assms)

lemma erase_exn_ValidationError: "\<exists>m'. erase_exn (ValidationError m) = ValidationError m'"
  by (cases m) simp

lemma erase_exn_other: "\<forall>m. e \<noteq> ValidationError m \<Longrightarrow> erase_exn e = e"
  by (cases e) auto

lemma erase_run_cases:
  assumes h: "erase_run r = erase_run r'"
  shows "(r = None \<and> r' = None) \<or> (r = passed \<and> r' = passed) \<or>
     (\<exists>m m'. r = Some (Inl (ValidationError m)) \<and> r' = Some (Inl (ValidationError m'))
        \<and> erase_exn (ValidationError m) = erase_exn (ValidationError m')) \<or>
     (\<exists>e. (\<forall>m. e \<noteq> ValidationError m) \<and> r = Some (Inl e) \<and> r' = Some (Inl e))"
proof (cases r)
  case None
  with h show ?thesis by (cases r') (simp_all add: erase_run_def)
next
  case (Some s)
  note r = this
  show ?thesis
  proof (cases r')
    case None
    with r h show ?thesis by (simp add: erase_run_def)
  next
    case (Some s')
    show ?thesis
    proof (cases s)
      case (Inr u)
      with r Some h show ?thesis by (cases s') (simp_all add: erase_run_def passed_def)
    next
      case (Inl e)
      note s = this
      show ?thesis
      proof (cases s')
        case (Inr u)
        with r Some s h show ?thesis by (simp add: erase_run_def)
      next
        case (Inl e')
        with r Some s h have ee: "erase_exn e = erase_exn e'" by (simp add: erase_run_def)
        show ?thesis
        proof (cases "\<exists>m. e = ValidationError m")
          case True
          then obtain m where m: "e = ValidationError m" by blast
          from erase_exn_ValidationError[of m] obtain m1 where m1: "erase_exn e = ValidationError m1"
            unfolding m by blast
          have "\<exists>m'. e' = ValidationError m'"
          proof (rule ccontr)
            assume "\<not> (\<exists>m'. e' = ValidationError m')"
            then have "erase_exn e' = e'" by (simp add: erase_exn_other)
            with ee m1 have "e' = ValidationError m1" by simp
            with \<open>\<not> (\<exists>m'. e' = ValidationError m')\<close> show False by blast
          qed
          then obtain m' where "e' = ValidationError m'" by blast
          with ee m r Some s Inl show ?thesis by auto
        next
          case False
          then have e: "erase_exn e = e" by (simp add: erase_exn_other)
          have "\<forall>m'. e' \<noteq> ValidationError m'"
          proof (intro allI notI)
            fix m' assume m': "e' = ValidationError m'"
            from erase_exn_ValidationError[of m'] obtain m1 where "erase_exn e' = ValidationError m1"
              unfolding m' by blast
            with ee e have "e = ValidationError m1" by simp
            with False show False by blast
          qed
          then have "erase_exn e' = e'" by (simp add: erase_exn_other)
          with e ee have "e = e'" by simp
          with False r Some s Inl show ?thesis by auto
        qed
      qed
    qed
  qed
qed

lemma erase_run_try_each:
  "map erase_run rs = map erase_run rs' \<Longrightarrow> map_option erase_exn c = map_option erase_exn c' \<Longrightarrow>
     erase_run (try_each c rs) = erase_run (try_each c' rs')"
proof (induction rs arbitrary: rs' c c')
  case Nil
  then show ?case by (cases c; cases c') (simp_all add: erase_run_def)
next
  case (Cons r rs)
  then obtain r' rs'' where rs': "rs' = r' # rs''" by (cases rs') auto
  with Cons.prems have h: "erase_run r = erase_run r'" and t: "map erase_run rs = map erase_run rs''"
    by simp_all
  from erase_run_cases[OF h] show ?case
  proof (elim disjE conjE exE)
    assume "r = None" "r' = None"
    then show ?thesis unfolding rs' by (simp add: erase_run_def)
  next
    assume "r = passed" "r' = passed"
    then show ?thesis unfolding rs' by (simp add: passed_def erase_run_def)
  next
    fix m m' assume "r = Some (Inl (ValidationError m))" "r' = Some (Inl (ValidationError m'))"
      "erase_exn (ValidationError m) = erase_exn (ValidationError m')"
    then show ?thesis unfolding rs' using Cons.IH[OF t, of "Some (ValidationError m)" "Some (ValidationError m')"]
      by simp
  next
    fix e assume "\<forall>m. e \<noteq> ValidationError m" "r = Some (Inl e)" "r' = Some (Inl e)"
    then show ?thesis unfolding rs' by (cases e) simp_all
  qed
qed

lemma validator_erase:
  "erase_run (validator n tys sc t expr (erase v) path) = erase_run (validator n tys sc t expr v path)"
proof (induction n arbitrary: expr sc t v path)
  case 0
  show ?case by simp
next
  case (Suc n)
  show ?case
  proof (cases t)
    case (TAlias name)
    then show ?thesis using Suc.IH by (simp split: option.splits scope.splits)
  next
    case (TArray elem)
    then show ?thesis
      by (auto simp: for_of_map comp_def intro!: erase_run_for_of Suc.IH)
  next
    case (TObject properties)
    have "erase_run (property_checks (\<lambda>t x p. validator n tys sc t Property x p) (erase v) path properties)
        = erase_run (property_checks (\<lambda>t x p. validator n tys sc t Property x p) v path properties)"
      by (rule erase_run_property_checks) (rule Suc.IH)
    with TObject show ?thesis
      by (auto intro!: erase_run_andThen erase_run_key_checks)
  next
    case (TUnion ts)
    have "map erase_run (member_checks n tys sc ts expr (erase v) path)
        = map erase_run (member_checks n tys sc ts expr v path)"
      by (simp add: member_checks_def Suc.IH split_def)
    from erase_run_try_each[OF this, of None None] TUnion show ?thesis
      by (simp only: validator_TUnion)
  qed simp_all
qed

lemma validator_erase_eq:
  "erase w = erase v \<Longrightarrow> erase_run (validator n tys sc t expr w path) = erase_run (validator n tys sc t expr v path)"
  by (metis validator_erase)

lemma sanitizer_TUnion:
  "sanitizer (Suc n) tys (TUnion ts) expr v path next = first_valid (attempts n tys ts expr v path) next"
  by (simp add: attempts_def)

lemma length_attempts [simp]: "length (attempts n tys ts expr v path) = length ts"
  by (simp add: attempts_def)

lemma nth_attempts [simp]:
  "i < length ts \<Longrightarrow> attempts n tys ts expr v path ! i =
     (validator n tys InCreate (ts ! i) expr v (path @ [toString i]),
      \<lambda>next'. sanitizer n tys (ts ! i) expr v (path @ [toString i]) next')"
  by (simp add: attempts_def nth_enumerate_eq)

lemma map_items_all:
  "\<forall>x \<in> set xs. \<forall>k. \<exists>y k'. f x k = Some (Inr y, k') \<and> P x y \<Longrightarrow>
     \<exists>ys k'. map_items f xs k = Some (Inr ys, k') \<and> list_all2 P xs ys"
proof (induction xs arbitrary: k)
  case Nil
  show ?case by simp
next
  case (Cons x xs)
  from Cons.prems obtain y k1 where y: "f x k = Some (Inr y, k1)" "P x y" by fastforce
  from Cons.prems have "\<forall>x \<in> set xs. \<forall>k. \<exists>y k'. f x k = Some (Inr y, k') \<and> P x y" by simp
  from Cons.IH[OF this, of k1] obtain ys k' where
    "map_items f xs k1 = Some (Inr ys, k')" "list_all2 P xs ys" by blast
  with y have "map_items f (x # xs) k = Some (Inr (y # ys), k') \<and> list_all2 P (x # xs) (y # ys)"
    by simp
  then show ?case by blast
qed

lemma first_valid_at:
  "i < length as \<Longrightarrow> fst (as ! i) = passed \<Longrightarrow> snd (as ! i) k = Some (Inr y, k') \<Longrightarrow>
   (\<forall>j < i. \<exists>m. fst (as ! j) = Some (Inl (ValidationError m))) \<Longrightarrow>
     first_valid as k = Some (Inr y, k')"
proof (induction as arbitrary: i)
  case Nil
  then show ?case by simp
next
  case (Cons a as)
  obtain checks sanitized where a: "a = (checks, sanitized)" by (cases a)
  show ?case
  proof (cases i)
    case 0
    with Cons.prems a show ?thesis by (simp add: passed_def)
  next
    case (Suc j)
    with Cons.prems a obtain m where m: "checks = Some (Inl (ValidationError m))" by fastforce
    have "first_valid as k = Some (Inr y, k')"
    proof (rule Cons.IH[of j])
      show "j < length as" using Cons.prems Suc by simp
      show "fst (as ! j) = passed" using Cons.prems Suc by simp
      show "snd (as ! j) k = Some (Inr y, k')" using Cons.prems Suc by simp
      show "\<forall>l<j. \<exists>m. fst (as ! l) = Some (Inl (ValidationError m))"
        using Cons.prems(4) Suc by (metis Suc_less_eq nth_Cons_Suc)
    qed
    with a m show ?thesis by simp
  qed
qed

lemma trial_TObject_not_passed:
  "validator n tys InCreate (TObject properties) expr v path \<noteq> passed"
  by (cases n) (simp_all add: key_checks_def passed_def fail_def andThen_def)

lemma trial_TAlias_not_passed:
  "validator n tys InCreate (TAlias name) expr v path \<noteq> passed"
  by (cases n) (simp_all add: passed_def split: option.splits)

lemma sanitizer_after_trial:
  "validator n tys InCreate t expr v path = passed \<Longrightarrow> data v \<Longrightarrow>
     \<exists>r k'. sanitizer n tys t expr v path k = Some (Inr r, k') \<and> erase r = erase v"
proof (induction n arbitrary: expr t v path k)
  case 0
  then show ?case by (simp add: passed_def)
next
  case (Suc n)
  show ?case
  proof (cases t)
    case (TAlias name)
    with Suc.prems trial_TAlias_not_passed show ?thesis by blast
  next
    case (TArray elem)
    with Suc.prems have a: "isArray v"
      and p: "\<forall>item \<in> set (elements v). validator n tys InCreate elem Item item (path @ [''__item__'']) = passed"
      by (auto simp: for_of_eq_passed split: if_splits)
    from a Suc.prems(2) obtain b items where v: "v = JArr b items" by (cases v) auto
    have "\<forall>item \<in> set items. \<forall>k. \<exists>y k'.
        sanitizer n tys elem Item item (path @ [''__item__'']) k = Some (Inr y, k') \<and> erase y = erase item"
      using p v Suc.IH Suc.prems(2) by simp
    from map_items_all[OF this, of "Suc k"] obtain ys k' where
      m: "map_items (\<lambda>item next'. sanitizer n tys elem Item item (path @ [''__item__'']) next') items (Suc k)
            = Some (Inr ys, k')"
      and l: "list_all2 (\<lambda>item y. erase y = erase item) items ys" by blast
    from l have "map erase ys = map erase items"
      by (induction items ys rule: list_all2_induct) auto
    with m v TArray show ?thesis by simp
  next
    case (TObject properties)
    with Suc.prems trial_TObject_not_passed show ?thesis by blast
  next
    case (TUnion ts)
    with Suc.prems have "try_each None (member_checks n tys InCreate ts expr v path) = passed"
      by (simp only: validator_TUnion)
    from try_each_passed_conv[OF this] obtain i where i: "i < length ts"
      "validator n tys InCreate (ts ! i) expr v (path @ [toString i]) = passed"
      "\<forall>j<i. \<exists>m. validator n tys InCreate (ts ! j) expr v (path @ [toString j]) = Some (Inl (ValidationError m))"
      by auto
    from Suc.IH[OF i(2) Suc.prems(2), of k] obtain r k' where
      r: "sanitizer n tys (ts ! i) expr v (path @ [toString i]) k = Some (Inr r, k')" "erase r = erase v"
      by blast
    have "first_valid (attempts n tys ts expr v path) k = Some (Inr r, k')"
    proof (rule first_valid_at[of i])
      show "i < length (attempts n tys ts expr v path)" using i(1) by simp
      show "fst (attempts n tys ts expr v path ! i) = passed" using i(1,2) by simp
      show "snd (attempts n tys ts expr v path ! i) k = Some (Inr r, k')" using i(1) r(1) by simp
      show "\<forall>j<i. \<exists>m. fst (attempts n tys ts expr v path ! j) = Some (Inl (ValidationError m))"
        using i(1,3) by simp
    qed
    with r(2) TUnion show ?thesis by (simp only: sanitizer_TUnion) blast
  qed (use Suc.prems in \<open>simp_all add: fail_def passed_def split: if_splits\<close>)
qed

lemma andThen_undeclared [simp]: "andThen undeclared k = undeclared"
  by (simp add: andThen_def undeclared_def)

lemma undeclared_not_passed [simp]: "undeclared \<noteq> passed" "passed \<noteq> undeclared"
  by (simp_all add: undeclared_def passed_def)

lemma for_of_agree:
  "for_of f xs \<noteq> undeclared \<Longrightarrow> (\<forall>x \<in> set xs. f x \<noteq> undeclared \<longrightarrow> g x = f x) \<Longrightarrow>
     for_of g xs = for_of f xs"
proof (induction xs)
  case Nil
  show ?case by simp
next
  case (Cons x xs)
  have fx: "f x \<noteq> undeclared"
  proof
    assume "f x = undeclared"
    with Cons.prems(1) show False by simp
  qed
  with Cons.prems(2) have gx: "g x = f x" by simp
  show ?case
  proof (cases "f x = passed")
    case True
    with Cons gx show ?thesis by simp
  next
    case False
    with gx show ?thesis by (simp add: andThen_not_passed)
  qed
qed

lemma try_each_agree:
  "try_each c rs \<noteq> undeclared \<Longrightarrow> list_all2 (\<lambda>r r'. r \<noteq> undeclared \<longrightarrow> r' = r) rs rs' \<Longrightarrow>
     try_each c rs' = try_each c rs"
proof (induction rs arbitrary: rs' c)
  case Nil
  then show ?case by simp
next
  case (Cons r rs)
  from Cons.prems(2) obtain r' rs'' where rs': "rs' = r' # rs''"
    and h: "r \<noteq> undeclared \<longrightarrow> r' = r"
    and t: "list_all2 (\<lambda>r r'. r \<noteq> undeclared \<longrightarrow> r' = r) rs rs''"
    by (cases rs') auto
  have "r \<noteq> undeclared"
  proof
    assume "r = undeclared"
    with Cons.prems(1) show False by (simp add: undeclared_def)
  qed
  with h have r': "r' = r" by simp
  show ?case
  proof (cases r)
    case None
    with r' rs' show ?thesis by simp
  next
    case (Some s)
    show ?thesis
    proof (cases s)
      case (Inr u)
      with Some r' rs' show ?thesis by simp
    next
      case (Inl e)
      show ?thesis
      proof (cases e)
        case (ValidationError m)
        with Some Inl Cons.prems(1) have "try_each (Some (ValidationError m)) rs \<noteq> undeclared" by simp
        from Cons.IH[OF this t] Some Inl ValidationError r' rs' show ?thesis by simp
      qed (use Some Inl r' rs' in simp_all)
    qed
  qed
qed

lemma trial_agrees:
  "validator n tys InCreate t expr v path \<noteq> undeclared \<Longrightarrow>
     validator n tys (InValidate allow) t expr v path = validator n tys InCreate t expr v path"
proof (induction n arbitrary: expr t v path)
  case 0
  show ?case by simp
next
  case (Suc n)
  show ?case
  proof (cases t)
    case (TAlias name)
    with Suc.prems show ?thesis by (simp add: undeclared_def split: option.splits)
  next
    case (TArray elem)
    show ?thesis
    proof (cases "isArray v")
      case True
      show ?thesis
      proof (cases "expr = Item")
        case loop: True
        with True TArray show ?thesis by simp
      next
        case False
        with True Suc.prems TArray have
          "for_of (\<lambda>item. validator n tys InCreate elem Item item (path @ [''__item__''])) (elements v) \<noteq> undeclared"
          by simp
        from for_of_agree[OF this, of "\<lambda>item. validator n tys (InValidate allow) elem Item item (path @ [''__item__''])"]
          Suc.IH True False TArray show ?thesis by simp
      qed
    next
      case False
      with TArray show ?thesis by simp
    qed
  next
    case (TObject properties)
    with Suc.prems show ?thesis
      by (auto simp: key_checks_def undeclared_def[symmetric] split: if_splits)
  next
    case (TUnion ts)
    have n: "try_each None (member_checks n tys InCreate ts expr v path) \<noteq> undeclared"
      using Suc.prems unfolding TUnion validator_TUnion .
    have "list_all2 (\<lambda>r r'. r \<noteq> undeclared \<longrightarrow> r' = r)
        (member_checks n tys InCreate ts expr v path) (member_checks n tys (InValidate allow) ts expr v path)"
      by (rule list_all2_all_nthI) (simp_all add: Suc.IH)
    from try_each_agree[OF n this] show ?thesis unfolding TUnion validator_TUnion .
  qed simp_all
qed

lemma validator_passed_erase:
  "erase w = erase v \<Longrightarrow> validator n tys sc t expr v path = passed \<Longrightarrow>
     validator n tys sc t expr w path = passed"
  using validator_erase_eq[of w v n tys sc t expr path] by simp

lemma validator_ValidationError_erase:
  assumes "erase w = erase v" and "validator n tys sc t expr v path = Some (Inl (ValidationError m))"
  shows "\<exists>m'. validator n tys sc t expr w path = Some (Inl (ValidationError m'))"
proof -
  from validator_erase_eq[OF assms(1), of n tys sc t expr path]
  have "erase_run (validator n tys sc t expr w path) = erase_run (validator n tys sc t expr v path)" .
  from erase_run_cases[OF this] assms(2) show ?thesis by (auto simp: passed_def)
qed

lemma first_valid_Inr:
  "first_valid as k = Some (Inr y, k') \<Longrightarrow>
     (\<forall>a \<in> set as. \<exists>m. fst a = Some (Inl (ValidationError m))) \<or>
     (\<exists>i < length as. fst (as ! i) = passed \<and>
        (\<forall>j < i. \<exists>m. fst (as ! j) = Some (Inl (ValidationError m))))"
proof (induction as arbitrary: k)
  case Nil
  then show ?case by simp
next
  case (Cons a as)
  obtain checks sanitized where a: "a = (checks, sanitized)" by (cases a)
  show ?case
  proof (cases "checks = passed")
    case True
    with a have "0 < length (a # as) \<and> fst ((a # as) ! 0) = passed \<and>
        (\<forall>j < 0. \<exists>m. fst ((a # as) ! j) = Some (Inl (ValidationError m)))" by simp
    then show ?thesis by blast
  next
    case False
    with Cons.prems a obtain m where m: "checks = Some (Inl (ValidationError m))"
      and r: "first_valid as k = Some (Inr y, k')"
      by (auto simp: passed_def split: option.splits sum.splits exn.splits)
    from Cons.IH[OF r] show ?thesis
    proof
      assume "\<forall>a \<in> set as. \<exists>m. fst a = Some (Inl (ValidationError m))"
      with a m show ?thesis by simp
    next
      assume "\<exists>i < length as. fst (as ! i) = passed \<and>
        (\<forall>j < i. \<exists>m. fst (as ! j) = Some (Inl (ValidationError m)))"
      then obtain i where i: "i < length as" "fst (as ! i) = passed"
        "\<forall>j < i. \<exists>m. fst (as ! j) = Some (Inl (ValidationError m))" by blast
      have "\<forall>j < Suc i. \<exists>m. fst ((a # as) ! j) = Some (Inl (ValidationError m))"
        using i(3) a m by (auto simp: nth_Cons split: nat.splits)
      with i have "Suc i < length (a # as) \<and> fst ((a # as) ! Suc i) = passed \<and>
        (\<forall>j < Suc i. \<exists>m. fst ((a # as) ! j) = Some (Inl (ValidationError m)))" by simp
      then show ?thesis by blast
    qed
  qed
qed

lemma union_trial_passes:
  assumes val: "validator (Suc n) tys (InValidate (Some True)) (TUnion ts) expr v path = passed"
    and san: "sanitizer (Suc n) tys (TUnion ts) expr v path next = Some (Inr r, next')"
  shows "\<exists>i < length ts. validator n tys InCreate (ts ! i) expr v (path @ [toString i]) = passed \<and>
      (\<forall>j < i. \<exists>m. validator n tys InCreate (ts ! j) expr v (path @ [toString j])
          = Some (Inl (ValidationError m)))"
proof -
  from san have "first_valid (attempts n tys ts expr v path) next = Some (Inr r, next')"
    by (simp only: sanitizer_TUnion)
  from first_valid_Inr[OF this] show ?thesis
  proof
    assume all: "\<forall>a \<in> set (attempts n tys ts expr v path). \<exists>m. fst a = Some (Inl (ValidationError m))"
    have c: "\<And>j. j < length ts \<Longrightarrow>
        \<exists>m. validator n tys InCreate (ts ! j) expr v (path @ [toString j]) = Some (Inl (ValidationError m))"
    proof -
      fix j assume j: "j < length ts"
      then have "attempts n tys ts expr v path ! j \<in> set (attempts n tys ts expr v path)"
        by (metis length_attempts nth_mem)
      with all j show "\<exists>m. validator n tys InCreate (ts ! j) expr v (path @ [toString j])
          = Some (Inl (ValidationError m))" by fastforce
    qed
    from val have "try_each None (member_checks n tys (InValidate (Some True)) ts expr v path) = passed"
      by (simp only: validator_TUnion)
    from try_each_passed_conv[OF this] obtain i where i: "i < length ts"
      "validator n tys (InValidate (Some True)) (ts ! i) expr v (path @ [toString i]) = passed" by auto
    from c[OF i(1)] obtain m where
      m: "validator n tys InCreate (ts ! i) expr v (path @ [toString i]) = Some (Inl (ValidationError m))"
      by blast
    then have "validator n tys InCreate (ts ! i) expr v (path @ [toString i]) \<noteq> undeclared"
      by (simp add: undeclared_def)
    from trial_agrees[OF this, of "Some True"] m i(2) show ?thesis by (simp add: passed_def)
  next
    assume "\<exists>i < length (attempts n tys ts expr v path). fst (attempts n tys ts expr v path ! i) = passed \<and>
        (\<forall>j < i. \<exists>m. fst (attempts n tys ts expr v path ! j) = Some (Inl (ValidationError m)))"
    then obtain i where i: "i < length ts" "fst (attempts n tys ts expr v path ! i) = passed"
      "\<forall>j < i. \<exists>m. fst (attempts n tys ts expr v path ! j) = Some (Inl (ValidationError m))" by auto
    have "validator n tys InCreate (ts ! i) expr v (path @ [toString i]) = passed \<and>
      (\<forall>j < i. \<exists>m. validator n tys InCreate (ts ! j) expr v (path @ [toString j])
          = Some (Inl (ValidationError m)))"
      using i by simp
    with i(1) show ?thesis by blast
  qed
qed

lemma union_sanitizer_result:
  assumes i: "i < length ts" "validator n tys InCreate (ts ! i) expr v (path @ [toString i]) = passed"
      "\<forall>j < i. \<exists>m. validator n tys InCreate (ts ! j) expr v (path @ [toString j])
          = Some (Inl (ValidationError m))"
    and d: "data v"
  shows "\<exists>r k'. sanitizer (Suc n) tys (TUnion ts) expr v path k = Some (Inr r, k') \<and> erase r = erase v"
proof -
  from sanitizer_after_trial[OF i(2) d, of k] obtain r k' where
    r: "sanitizer n tys (ts ! i) expr v (path @ [toString i]) k = Some (Inr r, k')" "erase r = erase v"
    by blast
  have "first_valid (attempts n tys ts expr v path) k = Some (Inr r, k')"
  proof (rule first_valid_at[of i])
    show "i < length (attempts n tys ts expr v path)" using i(1) by simp
    show "fst (attempts n tys ts expr v path ! i) = passed" using i(1,2) by simp
    show "snd (attempts n tys ts expr v path ! i) k = Some (Inr r, k')" using i(1) r(1) by simp
    show "\<forall>j<i. \<exists>m. fst (attempts n tys ts expr v path ! j) = Some (Inl (ValidationError m))"
      using i(1,3) by simp
  qed
  with r(2) show ?thesis by (simp only: sanitizer_TUnion) blast
qed

lemma stable_TUnion:
  assumes val: "validator (Suc n) tys (InValidate (Some True)) (TUnion ts) expr v path = passed"
    and san: "sanitizer (Suc n) tys (TUnion ts) expr v path next = Some (Inr r, next')"
    and d: "data v"
  shows "stable (Suc n) tys (TUnion ts) expr path v r"
proof -
  from union_trial_passes[OF val san] obtain i where i: "i < length ts"
    "validator n tys InCreate (ts ! i) expr v (path @ [toString i]) = passed"
    "\<forall>j < i. \<exists>m. validator n tys InCreate (ts ! j) expr v (path @ [toString j])
          = Some (Inl (ValidationError m))" by blast
  from union_sanitizer_result[OF i d, of "next"] san have rv: "erase r = erase v" by auto
  have "validator (Suc n) tys (InValidate (Some True)) (TUnion ts) expr w path = passed \<and>
         (\<exists>r2 k'. sanitizer (Suc n) tys (TUnion ts) expr w path k = Some (Inr r2, k') \<and> erase r2 = erase r)"
    if w: "erase w = erase r" for w k
  proof -
    from w rv have wv: "erase w = erase v" by simp
    from data_erase_eq[OF wv] d have dw: "data w" by simp
    have iw: "validator n tys InCreate (ts ! i) expr w (path @ [toString i]) = passed"
      using validator_passed_erase[OF wv i(2)] .
    have jw: "\<forall>j < i. \<exists>m. validator n tys InCreate (ts ! j) expr w (path @ [toString j])
          = Some (Inl (ValidationError m))"
      using i(3) validator_ValidationError_erase[OF wv] by blast
    from union_sanitizer_result[OF i(1) iw jw dw, of k] w
    have "\<exists>r2 k'. sanitizer (Suc n) tys (TUnion ts) expr w path k = Some (Inr r2, k') \<and> erase r2 = erase r"
      by auto
    with validator_passed_erase[OF wv val] show ?thesis by blast
  qed
  moreover have "v \<noteq> JUndefined \<longrightarrow> r \<noteq> JUndefined"
    using rv by (metis erase_eq_JUndefined)
  ultimately show ?thesis unfolding stable_def by blast
qed

lemma stable_unchanged:
  assumes val: "validator n tys (InValidate (Some True)) t expr v path = passed"
    and same: "\<And>w k. sanitizer n tys t expr w path k = Some (Inr w, k)"
  shows "stable n tys t expr path v v"
  unfolding stable_def using validator_passed_erase[OF _ val] same by blast

lemma map_items_Inr:
  "map_items f xs k = Some (Inr ys, k') \<Longrightarrow>
     list_all2 (\<lambda>x y. \<exists>m m'. f x m = Some (Inr y, m')) xs ys"
proof (induction xs arbitrary: k ys)
  case Nil
  then show ?case by simp
next
  case (Cons x xs)
  from Cons.prems obtain y k1 zs where y: "f x k = Some (Inr y, k1)"
    and r: "map_items f xs k1 = Some (Inr zs, k')" and ys: "ys = y # zs"
    by (auto split: option.splits sum.splits prod.splits)
  from Cons.IH[OF r] y ys show ?case by auto
qed

lemma erase_eq_JArr: "erase w = JArr 0 es \<Longrightarrow> \<exists>b ws. w = JArr b ws \<and> map erase ws = es"
  by (cases w) auto

lemma erase_eq_JObj:
  "erase w = JObj 0 es \<Longrightarrow> \<exists>b wes. w = JObj b wes \<and> map (map_prod id erase) wes = es"
  by (cases w) auto

lemma data_elements: "data v \<Longrightarrow> x \<in> set (elements v) \<Longrightarrow> data x"
  by (cases v) auto

lemma stable_TArray:
  assumes IH: "\<And>x y next next'. data x \<Longrightarrow>
        validator n tys (InValidate (Some True)) elem Item x (path @ [''__item__'']) = passed \<Longrightarrow>
        sanitizer n tys elem Item x (path @ [''__item__'']) next = Some (Inr y, next') \<Longrightarrow>
        stable n tys elem Item (path @ [''__item__'']) x y"
    and val: "validator (Suc n) tys (InValidate (Some True)) (TArray elem) expr v path = passed"
    and san: "sanitizer (Suc n) tys (TArray elem) expr v path next = Some (Inr r, next')"
    and dv: "data v"
  shows "stable (Suc n) tys (TArray elem) expr path v r"
proof -
  let ?p = "path @ [''__item__'']"
  from val have a: "isArray v" and outer: "expr \<noteq> Item"
    and p: "\<forall>item \<in> set (elements v). validator n tys (InValidate (Some True)) elem Item item ?p = passed"
    by (auto simp: for_of_eq_passed split: if_splits)
  from san a obtain ys where
    m: "map_items (\<lambda>item next'. sanitizer n tys elem Item item ?p next') (elements v) (Suc next)
          = Some (Inr ys, next')"
    and r: "r = JArr next ys"
    by (auto split: option.splits sum.splits prod.splits)
  from map_items_Inr[OF m] have
    l: "list_all2 (\<lambda>x y. \<exists>m m'. sanitizer n tys elem Item x ?p m = Some (Inr y, m')) (elements v) ys" .
  have st: "stable n tys elem Item ?p (elements v ! i) (ys ! i)" if "i < length ys" for i
  proof -
    from l that have i: "i < length (elements v)" by (simp add: list_all2_lengthD)
    from list_all2_nthD[OF l i] obtain m m' where
      "sanitizer n tys elem Item (elements v ! i) ?p m = Some (Inr (ys ! i), m')" by blast
    moreover from p i have "validator n tys (InValidate (Some True)) elem Item (elements v ! i) ?p = passed"
      by simp
    moreover from dv i have "data (elements v ! i)" by (simp add: data_elements)
    ultimately show ?thesis using IH by blast
  qed
  have "validator (Suc n) tys (InValidate (Some True)) (TArray elem) expr w path = passed \<and>
         (\<exists>r2 k'. sanitizer (Suc n) tys (TArray elem) expr w path k = Some (Inr r2, k') \<and> erase r2 = erase r)"
    if w: "erase w = erase r" for w k
  proof -
    from w r erase_eq_JArr[of w "map erase ys"] obtain b ws where
      ws: "w = JArr b ws" "map erase ws = map erase ys" by auto
    then have len: "length ws = length ys" by (metis length_map)
    have q: "validator n tys (InValidate (Some True)) elem Item x ?p = passed \<and>
        (\<forall>k. \<exists>z k'. sanitizer n tys elem Item x ?p k = Some (Inr z, k') \<and> erase z = erase x)"
      if "x \<in> set ws" for x
    proof -
      from that obtain i where i: "i < length ws" "x = ws ! i" by (metis in_set_conv_nth)
      with ws(2) len have e: "erase x = erase (ys ! i)" by (metis nth_map)
      from st[of i] i len have "stable n tys elem Item ?p (elements v ! i) (ys ! i)" by simp
      with e show ?thesis unfolding stable_def by metis
    qed
    then have v': "validator (Suc n) tys (InValidate (Some True)) (TArray elem) expr w path = passed"
      using ws(1) outer by (simp add: for_of_eq_passed)
    have "\<forall>x \<in> set ws. \<forall>k. \<exists>z k'.
        sanitizer n tys elem Item x ?p k = Some (Inr z, k') \<and> erase z = erase x" using q by blast
    from map_items_all[OF this, of "Suc k"] obtain zs k' where
      z: "map_items (\<lambda>item next'. sanitizer n tys elem Item item ?p next') ws (Suc k) = Some (Inr zs, k')"
      and lz: "list_all2 (\<lambda>x z. erase z = erase x) ws zs" by blast
    from lz have "map erase zs = map erase ws"
      by (induction ws zs rule: list_all2_induct) auto
    with z ws r have "sanitizer (Suc n) tys (TArray elem) expr w path k = Some (Inr (JArr k zs), k') \<and>
        erase (JArr k zs) = erase r" by simp
    with v' show ?thesis by blast
  qed
  then show ?thesis unfolding stable_def using r by blast
qed

lemma assign_all:
  assumes nn: "v \<noteq> JUndefined" "v \<noteq> JNull"
    and ok: "\<forall>(name, p) \<in> set (kept v ps). \<forall>m. \<exists>z m'.
        san (ptype p) (get v name) (path @ [name]) m = Some (Inr z, m') \<and> P name z"
    and d: "distinct (map fst ps)" and dj: "fst ` set acc \<inter> fst ` set ps = {}"
  shows "\<exists>ys m'. assign san v path ps acc m = Some (Inr (acc @ ys), m') \<and>
      list_all2 (\<lambda>(name, p) (key, z). key = name \<and> P name z) (kept v ps) ys"
  using ok d dj
proof (induction ps arbitrary: acc m)
  case Nil
  then show ?case by (simp add: kept_def)
next
  case (Cons np rest)
  obtain name p where np: "np = (name, p)" by (cases np)
  from nn have mem: "member v name = Inr (get v name)" by (simp add: member_def)
  from Cons.prems(2) np have d': "distinct (map fst rest)" and nr: "name \<notin> fst ` set rest" by auto
  from Cons.prems(3) np have na: "name \<notin> fst ` set acc" by auto
  show ?case
  proof (cases "required p \<or> get v name \<noteq> JUndefined")
    case True
    then have k: "kept v (np # rest) = (name, p) # kept v rest" using np by (simp add: kept_def)
    with Cons.prems(1) obtain z m1 where
      z: "san (ptype p) (get v name) (path @ [name]) m = Some (Inr z, m1)" "P name z"
      by fastforce
    have ok': "\<forall>(name, p) \<in> set (kept v rest). \<forall>m. \<exists>z m'.
        san (ptype p) (get v name) (path @ [name]) m = Some (Inr z, m') \<and> P name z"
      using Cons.prems(1) k by simp
    have dj': "fst ` set (acc @ [(name, z)]) \<inter> fst ` set rest = {}"
      using Cons.prems(3) np nr by auto
    from Cons.IH[OF ok' d' dj', of m1] obtain ys m' where
      r: "assign san v path rest (acc @ [(name, z)]) m1 = Some (Inr ((acc @ [(name, z)]) @ ys), m')"
      and l: "list_all2 (\<lambda>(name, p) (key, z). key = name \<and> P name z) (kept v rest) ys" by blast
    have "assign san v path (np # rest) acc m = Some (Inr (acc @ ((name, z) # ys)), m')"
      using np mem True z(1) r put_fresh[OF na] by simp
    moreover have "list_all2 (\<lambda>(name, p) (key, z). key = name \<and> P name z)
        (kept v (np # rest)) ((name, z) # ys)"
      using k l z(2) by simp
    ultimately show ?thesis by blast
  next
    case False
    then have k: "kept v (np # rest) = kept v rest" using np by (simp add: kept_def)
    have ok': "\<forall>(name, p) \<in> set (kept v rest). \<forall>m. \<exists>z m'.
        san (ptype p) (get v name) (path @ [name]) m = Some (Inr z, m') \<and> P name z"
      using Cons.prems(1) k by simp
    have dj': "fst ` set acc \<inter> fst ` set rest = {}" using Cons.prems(3) by auto
    from Cons.IH[OF ok' d' dj', of m] obtain ys m' where
      r: "assign san v path rest acc m = Some (Inr (acc @ ys), m')"
      and l: "list_all2 (\<lambda>(name, p) (key, z). key = name \<and> P name z) (kept v rest) ys" by blast
    have "assign san v path (np # rest) acc m = Some (Inr (acc @ ys), m')"
      using np mem False r by simp
    with l k show ?thesis by auto
  qed
qed

lemma map_of_nth:
  "distinct (map fst xs) \<Longrightarrow> i < length xs \<Longrightarrow> map_of xs (fst (xs ! i)) = Some (snd (xs ! i))"
  by (metis map_of_eq_Some_iff nth_mem prod.collapse)

lemma stable_TObject:
  assumes IH: "\<And>name p x y next next'. (name, p) \<in> set ps \<Longrightarrow> data x \<Longrightarrow>
        validator n tys (InValidate (Some True)) (ptype p) Property x (path @ [name]) = passed \<Longrightarrow>
        sanitizer n tys (ptype p) Property x (path @ [name]) next = Some (Inr y, next') \<Longrightarrow>
        stable n tys (ptype p) Property (path @ [name]) x y"
    and d: "distinct (map fst ps)"
    and val: "validator (Suc n) tys (InValidate (Some True)) (TObject ps) expr v path = passed"
    and san: "sanitizer (Suc n) tys (TObject ps) expr v path next = Some (Inr r, next')"
    and dv: "data v" and pl: "list_all plain (map fst ps)"
  shows "stable (Suc n) tys (TObject ps) expr path v r"
proof -
  let ?L = "InValidate (Some True)"
  from val have pc: "property_checks (\<lambda>t x p. validator n tys ?L t Property x p) v path ps = passed"
    by (auto split: if_splits)
  from sanitizer_TObject_Inr[OF san d] obtain out where r: "r = JObj next out"
    and l: "list_all2 (\<lambda>(name, p) (key, y). key = name \<and>
           (\<exists>m m'. sanitizer n tys (ptype p) Property (get v name) (path @ [name]) m = Some (Inr y, m')))
         (kept v ps) out" by blast
  have ko: "map fst out = map fst (kept v ps)" using l by (rule list_all2_keys)
  have dk: "distinct (map fst (kept v ps))"
    using d unfolding kept_def by (rule distinct_map_filter)
  have sub: "set (kept v ps) \<subseteq> set ps" by (auto simp: kept_def)
  have only: "\<And>name p p'. (name, p) \<in> set ps \<Longrightarrow> (name, p') \<in> set ps \<Longrightarrow> p' = p"
    using d by (meson eq_key_imp_eq_value)
  have K1: "stable n tys (ptype p) Property (path @ [name]) (get v name) (get r name)"
    if np: "(name, p) \<in> set (kept v ps)" for name p
  proof -
    from list_all2_lookup[OF l dk np] obtain y m m' where
      y: "map_of out name = Some y"
        "sanitizer n tys (ptype p) Property (get v name) (path @ [name]) m = Some (Inr y, m')" by blast
    from np have "(name, p) \<in> set ps" "required p \<or> get v name \<noteq> JUndefined"
      by (auto simp: kept_def)
    with pc have "validator n tys ?L (ptype p) Property (get v name) (path @ [name]) = passed"
      unfolding property_checks_passed by auto
    moreover from pl \<open>(name, p) \<in> set ps\<close> have "plain name" by (force simp: list_all_iff)
    with dv have "data (get v name)" by (rule data_get)
    ultimately show ?thesis using IH[OF \<open>(name, p) \<in> set ps\<close> _ _ y(2)] y(1) r by simp
  qed
  have K2: "get r name = JUndefined"
    if np: "(name, p) \<in> set ps" "(name, p) \<notin> set (kept v ps)" for name p
  proof -
    have "name \<notin> fst ` set (kept v ps)"
    proof
      assume "name \<in> fst ` set (kept v ps)"
      then obtain p' where p': "(name, p') \<in> set (kept v ps)" by auto
      with sub np(1) only have "p' = p" by blast
      with p' np(2) show False by simp
    qed
    moreover have "fst ` set out = fst ` set (kept v ps)" using ko by (metis set_map)
    ultimately have "name \<notin> fst ` set out" by simp
    then have "map_of out name = None" by (simp add: map_of_eq_None_iff)
    moreover from pl np(1) have "plain name" by (force simp: list_all_iff)
    ultimately show ?thesis using r by simp
  qed
  have "validator (Suc n) tys ?L (TObject ps) expr w path = passed \<and>
         (\<exists>r2 k'. sanitizer (Suc n) tys (TObject ps) expr w path k = Some (Inr r2, k') \<and> erase r2 = erase r)"
    if w: "erase w = erase r" for w k
  proof -
    have gw: "erase (get w key) = erase (get r key)" for key
      using w by (metis get_erase)
    from w r erase_eq_JObj[of w "map (map_prod id erase) out"] obtain b wes where
      wo: "w = JObj b wes" by auto
    have kw: "kept w ps = kept v ps"
      unfolding kept_def
    proof (rule filter_cong[OF refl])
      fix np assume np: "np \<in> set ps"
      obtain name p where [simp]: "np = (name, p)" by (cases np)
      show "(case np of (name, p) \<Rightarrow> required p \<or> get w name \<noteq> JUndefined)
          = (case np of (name, p) \<Rightarrow> required p \<or> get v name \<noteq> JUndefined)"
      proof (cases "(name, p) \<in> set (kept v ps)")
        case True
        from K1[OF True] have "get v name \<noteq> JUndefined \<longrightarrow> get r name \<noteq> JUndefined"
          by (simp add: stable_def)
        moreover have "(get w name = JUndefined) = (get r name = JUndefined)"
          using gw[of name] by (metis erase_eq_JUndefined)
        ultimately show ?thesis using True by (auto simp: kept_def)
      next
        case False
        from K2[OF _ False] np have "get r name = JUndefined" by simp
        then have "get w name = JUndefined" using gw[of name] by (metis erase_eq_JUndefined)
        with False np show ?thesis by (auto simp: kept_def)
      qed
    qed
    have Q: "validator n tys ?L (ptype p) Property (get w name) (path @ [name]) = passed \<and>
        (\<forall>m. \<exists>z m'. sanitizer n tys (ptype p) Property (get w name) (path @ [name]) m = Some (Inr z, m')
           \<and> erase z = erase (get w name))"
      if np: "(name, p) \<in> set (kept w ps)" for name p
    proof -
      from np kw have "(name, p) \<in> set (kept v ps)" by simp
      from K1[OF this] gw[of name] show ?thesis unfolding stable_def by metis
    qed
    have v': "validator (Suc n) tys ?L (TObject ps) expr w path = passed"
      using wo Q by (auto simp: property_checks_passed kept_def)
    have "\<forall>(name, p) \<in> set (kept w ps). \<forall>m. \<exists>z m'.
        sanitizer n tys (ptype p) Property (get w name) (path @ [name]) m = Some (Inr z, m')
          \<and> erase z = erase (get w name)"
      using Q by blast
    from assign_all[of w ps "\<lambda>t x p next'. sanitizer n tys t Property x p next'" path
        "\<lambda>name z. erase z = erase (get w name)" "[]" "Suc k", OF _ _ this d] wo
    obtain out2 m' where
      a2: "assign (\<lambda>t x p next'. sanitizer n tys t Property x p next') w path ps [] (Suc k) = Some (Inr out2, m')"
      and l2: "list_all2 (\<lambda>(name, p) (key, z). key = name \<and> erase z = erase (get w name))
          (kept w ps) out2" by auto
    have ko2: "map fst out2 = map fst (kept v ps)" using list_all2_keys[OF l2] kw by simp
    have dout: "distinct (map fst out)" using ko dk by simp
    have "map (map_prod id erase) out2 = map (map_prod id erase) out"
    proof (rule nth_equalityI)
      show "length (map (map_prod id erase) out2) = length (map (map_prod id erase) out)"
        using ko ko2 by (metis length_map)
    next
      fix i assume "i < length (map (map_prod id erase) out2)"
      then have i2: "i < length out2" by simp
      with ko ko2 have i1: "i < length out" by (metis length_map)
      from i2 l2 have ik: "i < length (kept w ps)" by (simp add: list_all2_lengthD)
      obtain name p where np: "kept w ps ! i = (name, p)" by (cases "kept w ps ! i")
      from list_all2_nthD[OF l2 ik] np have
        o2: "fst (out2 ! i) = name" "erase (snd (out2 ! i)) = erase (get w name)"
        by (auto split: prod.splits)
      have "fst (out ! i) = map fst out ! i" using i1 by simp
      also have "\<dots> = map fst (kept v ps) ! i" using ko by simp
      also have "\<dots> = fst (kept v ps ! i)" using ik kw by simp
      finally have o1: "fst (out ! i) = name" using kw np by simp
      from map_of_nth[OF dout i1] o1 r have "get r name = snd (out ! i)" by simp
      with o2(2) gw[of name] have "erase (snd (out2 ! i)) = erase (snd (out ! i))" by simp
      with o1 o2(1) i1 i2 show "map (map_prod id erase) out2 ! i = map (map_prod id erase) out ! i"
        by (simp add: map_prod_def split_beta)
    qed
    with a2 r have "sanitizer (Suc n) tys (TObject ps) expr w path k = Some (Inr (JObj k out2), m') \<and>
        erase (JObj k out2) = erase r" by simp
    with v' show ?thesis by blast
  qed
  then show ?thesis unfolding stable_def using r by blast
qed

lemma wf_types_lookup: "wf_types tys \<Longrightarrow> map_of tys name = Some t \<Longrightarrow> wf_Type t"
  by (auto simp: wf_types_def list_all_iff dest: map_of_SomeD)

lemma wf_Type_property:
  "wf_Type (TObject ps) \<Longrightarrow> (name, p) \<in> set ps \<Longrightarrow> wf_Type (ptype p)"
  by (cases p) (auto simp: list_all_iff)

lemma sanitizer_stable:
  assumes wf: "wf_types tys"
  shows "wf_Type t \<Longrightarrow> validator n tys (InValidate (Some True)) t expr v path = passed \<Longrightarrow>
     sanitizer n tys t expr v path next = Some (Inr r, next') \<Longrightarrow> data v \<Longrightarrow>
     stable n tys t expr path v r"
proof (induction n arbitrary: expr t v path "next" r next')
  case 0
  then show ?case by simp
next
  case (Suc n)
  have same: "stable (Suc n) tys t expr path v r"
    if "\<And>w k. sanitizer (Suc n) tys t expr w path k = Some (Inr w, k)"
  proof -
    from that[of v "next"] Suc.prems(3) have "r = v" by simp
    with stable_unchanged[OF Suc.prems(2) that] show ?thesis by simp
  qed
  show ?case
  proof (cases t)
    case (TAlias name)
    from Suc.prems(2) TAlias obtain target where target: "map_of tys name = Some target"
      and v: "validator n tys (InValidate (Some True)) target Param v [name] = passed"
      by (auto simp: passed_def split: option.splits)
    from Suc.prems(3) TAlias target v have
      s: "sanitizer n tys target Param v [name] next = Some (Inr r, next')"
      by (simp add: create_method_validate_method passed_def)
    from Suc.IH[OF wf_types_lookup[OF wf target] v s Suc.prems(4)]
    have st: "stable n tys target Param [name] v r" .
    show ?thesis unfolding stable_def TAlias
    proof (intro conjI allI impI)
      show "r \<noteq> JUndefined" if "v \<noteq> JUndefined" using st that by (simp add: stable_def)
    next
      fix w k assume w: "erase w = erase r"
      with st have vw: "validator n tys (InValidate (Some True)) target Param w [name] = passed"
        and "\<exists>r2 k'. sanitizer n tys target Param w [name] k = Some (Inr r2, k') \<and> erase r2 = erase r"
        unfolding stable_def by blast+
      then obtain r2 k' where
        r2: "sanitizer n tys target Param w [name] k = Some (Inr r2, k')" "erase r2 = erase r" by blast
      show "validator (Suc n) tys (InValidate (Some True)) (TAlias name) expr w path = passed"
        using target vw by simp
      from target vw r2 show "\<exists>r2 k'. sanitizer (Suc n) tys (TAlias name) expr w path k = Some (Inr r2, k')
          \<and> erase r2 = erase r"
        by (simp add: create_method_validate_method passed_def)
    qed
  next
    case (TArray elem)
    from Suc.prems(1) TArray have e: "wf_Type elem" by simp
    show ?thesis unfolding TArray
    proof (rule stable_TArray)
      fix x :: jsval and y k k'
      assume "data x"
        "validator n tys (InValidate (Some True)) elem Item x (path @ [''__item__'']) = passed"
        "sanitizer n tys elem Item x (path @ [''__item__'']) k = Some (Inr y, k')"
      then show "stable n tys elem Item (path @ [''__item__'']) x y" using Suc.IH[OF e] by blast
    next
      show "data v" by (rule Suc.prems(4))
      show "validator (Suc n) tys (InValidate (Some True)) (TArray elem) expr v path = passed"
        using Suc.prems(2) TArray by simp
      show "sanitizer (Suc n) tys (TArray elem) expr v path next = Some (Inr r, next')"
        using Suc.prems(3) TArray by simp
    qed
  next
    case (TObject ps)
    from Suc.prems(1) TObject have d: "distinct (map fst ps)" by simp
    show ?thesis unfolding TObject
    proof (rule stable_TObject)
      fix name p and x :: jsval and y k k'
      assume np: "(name, p) \<in> set ps" and "data x"
        and "validator n tys (InValidate (Some True)) (ptype p) Property x (path @ [name]) = passed"
        "sanitizer n tys (ptype p) Property x (path @ [name]) k = Some (Inr y, k')"
      moreover from Suc.prems(1) TObject np have "wf_Type (ptype p)"
        using wf_Type_property by blast
      ultimately show "stable n tys (ptype p) Property (path @ [name]) x y" using Suc.IH by blast
    next
      show "data v" by (rule Suc.prems(4))
      show "list_all plain (map fst ps)" using Suc.prems(1) TObject by simp
      show "distinct (map fst ps)" by (rule d)
      show "validator (Suc n) tys (InValidate (Some True)) (TObject ps) expr v path = passed"
        using Suc.prems(2) TObject by simp
      show "sanitizer (Suc n) tys (TObject ps) expr v path next = Some (Inr r, next')"
        using Suc.prems(3) TObject by simp
    qed
  next
    case (TUnion ts)
    with stable_TUnion Suc.prems(2,3,4) show ?thesis by blast
  qed (rule same, simp)+
qed

text \<open>
  The recursion budget is a bound only: what is computed within \<open>n\<close> nested calls is
  computed within every larger number of them.
\<close>

lemma andThen_Some:
  "andThen r k = Some x \<Longrightarrow> (r = passed \<and> k = Some x) \<or> (r = Some x \<and> r \<noteq> passed)"
  by (auto simp: andThen_def passed_def split: option.splits sum.splits)

lemma for_of_fuel:
  "(\<And>x r. f x = Some r \<Longrightarrow> g x = Some r) \<Longrightarrow> for_of f xs = Some r \<Longrightarrow> for_of g xs = Some r"
proof (induction xs)
  case Nil
  then show ?case by simp
next
  case (Cons x xs)
  from andThen_Some[of "f x" "for_of f xs" r] Cons.prems(2)
  consider "f x = passed" "for_of f xs = Some r" | "f x = Some r" "f x \<noteq> passed" by auto
  then show ?case
  proof cases
    case 1
    from 1(1) Cons.prems(1) have "g x = passed" by (simp add: passed_def)
    with Cons.IH[OF Cons.prems(1) 1(2)] show ?thesis by simp
  next
    case 2
    from 2(1) Cons.prems(1) have "g x = Some r" by simp
    with 2 show ?thesis by (simp add: andThen_not_passed)
  qed
qed

lemma try_each_fuel:
  "list_all2 (\<lambda>r r'. \<forall>x. r = Some x \<longrightarrow> r' = Some x) rs rs' \<Longrightarrow>
     try_each c rs = Some x \<Longrightarrow> try_each c rs' = Some x"
proof (induction rs arbitrary: rs' c)
  case Nil
  then show ?case by simp
next
  case (Cons r rs)
  from Cons.prems(1) obtain r' rs'' where rs': "rs' = r' # rs''"
    and h: "\<forall>x. r = Some x \<longrightarrow> r' = Some x"
    and t: "list_all2 (\<lambda>r r'. \<forall>x. r = Some x \<longrightarrow> r' = Some x) rs rs''"
    by (cases rs') auto
  show ?case
  proof (cases r)
    case None
    with Cons.prems(2) show ?thesis by simp
  next
    case (Some s)
    with h have r': "r' = Some s" by simp
    show ?thesis
    proof (cases s)
      case (Inr u)
      with Some r' rs' Cons.prems(2) show ?thesis by simp
    next
      case (Inl e)
      show ?thesis
      proof (cases e)
        case (ValidationError m)
        with Some Inl Cons.prems(2) have "try_each (Some (ValidationError m)) rs = Some x" by simp
        from Cons.IH[OF t this] Some Inl ValidationError r' rs' show ?thesis by simp
      qed (use Some Inl r' rs' Cons.prems(2) in auto)
    qed
  qed
qed

lemma validator_fuel_Suc:
  "validator n tys sc t expr v path = Some r \<Longrightarrow> validator (Suc n) tys sc t expr v path = Some r"
proof (induction n arbitrary: expr sc t v path r)
  case 0
  then show ?case by simp
next
  case (Suc n)
  show ?case
  proof (cases t)
    case (TAlias name)
    with Suc.prems Suc.IH show ?thesis by (auto split: option.splits scope.splits)
  next
    case (TArray elem)
    show ?thesis
    proof (cases "isArray v")
      case True
      show ?thesis
      proof (cases "expr = Item")
        case loop: True
        with True Suc.prems TArray show ?thesis by simp
      next
        case False
        with True Suc.prems TArray have
          "for_of (\<lambda>item. validator n tys sc elem Item item (path @ [''__item__''])) (elements v) = Some r"
          by simp
        from for_of_fuel[OF Suc.IH this] True False TArray show ?thesis by simp
      qed
    next
      case False
      with Suc.prems TArray show ?thesis by simp
    qed
  next
    case (TObject ps)
    show ?thesis
    proof (cases "typeof v \<noteq> ''object'' \<or> v = JNull")
      case True
      with Suc.prems TObject show ?thesis by simp
    next
      case False
      with Suc.prems TObject have a: "andThen (key_checks sc ps v path)
          (property_checks (\<lambda>t x p. validator n tys sc t Property x p) v path ps) = Some r" by simp
      have m: "property_checks (\<lambda>t x p. validator n tys sc t Property x p) v path ps = Some r'
          \<Longrightarrow> property_checks (\<lambda>t x p. validator (Suc n) tys sc t Property x p) v path ps = Some r'" for r'
        unfolding property_checks_def
        by (erule for_of_fuel[rotated]) (auto simp: Suc.IH split: if_splits)
      from andThen_Some[OF a] m have "andThen (key_checks sc ps v path)
          (property_checks (\<lambda>t x p. validator (Suc n) tys sc t Property x p) v path ps) = Some r"
        by (auto simp: andThen_not_passed)
      with False TObject show ?thesis by simp
    qed
  next
    case (TUnion ts)
    from Suc.prems have "try_each None (member_checks n tys sc ts expr v path) = Some r"
      unfolding TUnion validator_TUnion .
    moreover have "list_all2 (\<lambda>r r'. \<forall>x. r = Some x \<longrightarrow> r' = Some x)
        (member_checks n tys sc ts expr v path) (member_checks (Suc n) tys sc ts expr v path)"
      by (rule list_all2_all_nthI) (simp_all add: Suc.IH)
    ultimately have "try_each None (member_checks (Suc n) tys sc ts expr v path) = Some r"
      using try_each_fuel by blast
    then show ?thesis unfolding TUnion validator_TUnion .
  qed (use Suc.prems in simp_all)
qed

lemma validator_fuel:
  "validator n tys sc t expr v path = Some r \<Longrightarrow> n \<le> m \<Longrightarrow> validator m tys sc t expr v path = Some r"
  by (induction m) (auto simp: le_Suc_eq validator_fuel_Suc)

lemma map_items_fuel:
  "(\<And>x k r. f x k = Some r \<Longrightarrow> g x k = Some r) \<Longrightarrow>
     map_items f xs k = Some r \<Longrightarrow> map_items g xs k = Some r"
proof (induction xs arbitrary: k r)
  case Nil
  then show ?case by simp
next
  case (Cons x xs)
  from Cons.prems(2) obtain a k1 where a: "f x k = Some (a, k1)"
    by (cases "f x k") auto
  with Cons.prems(1) have g: "g x k = Some (a, k1)" by simp
  show ?case
  proof (cases a)
    case (Inl e)
    with a g Cons.prems(2) show ?thesis by simp
  next
    case (Inr y)
    with a Cons.prems(2) obtain b where b: "map_items f xs k1 = Some b"
      by (cases "map_items f xs k1") auto
    from Cons.IH[OF Cons.prems(1) b] have "map_items g xs k1 = Some b" .
    with a g b Inr Cons.prems(2) show ?thesis by simp
  qed
qed

lemma assign_fuel:
  "(\<And>t x p k r. san t x p k = Some r \<Longrightarrow> san' t x p k = Some r) \<Longrightarrow>
     assign san v path ps acc k = Some r \<Longrightarrow> assign san' v path ps acc k = Some r"
proof (induction ps arbitrary: acc k)
  case Nil
  then show ?case by simp
next
  case (Cons np rest)
  obtain name p where np: "np = (name, p)" by (cases np)
  show ?case
  proof (cases "member v name")
    case (Inl e)
    with Cons.prems(2) np show ?thesis by simp
  next
    case (Inr x)
    show ?thesis
    proof (cases "required p \<or> x \<noteq> JUndefined")
      case True
      with Cons.prems(2) np Inr obtain a k1 where
        a: "san (ptype p) x (path @ [name]) k = Some (a, k1)"
        by (cases "san (ptype p) x (path @ [name]) k") auto
      with Cons.prems(1) have g: "san' (ptype p) x (path @ [name]) k = Some (a, k1)" by simp
      show ?thesis
      proof (cases a)
        case (Inl e)
        with a g np Inr True Cons.prems(2) show ?thesis by simp
      next
        case y: (Inr y)
        with a np Inr True Cons.prems(2) have "assign san v path rest (put acc name y) k1 = Some r"
          by simp
        from Cons.IH[OF Cons.prems(1) this] a g np Inr True y show ?thesis by simp
      qed
    next
      case False
      with Cons.prems(2) np Inr have "assign san v path rest acc k = Some r" by simp
      from Cons.IH[OF Cons.prems(1) this] np Inr False show ?thesis by simp
    qed
  qed
qed

lemma first_valid_fuel:
  "list_all2 (\<lambda>a a'. (\<forall>x. fst a = Some x \<longrightarrow> fst a' = Some x) \<and>
        (\<forall>k r. snd a k = Some r \<longrightarrow> snd a' k = Some r)) as as' \<Longrightarrow>
     first_valid as k = Some r \<Longrightarrow> first_valid as' k = Some r"
proof (induction as arbitrary: as' k)
  case Nil
  then show ?case by simp
next
  case (Cons a as)
  from Cons.prems(1) obtain a' as'' where as': "as' = a' # as''"
    and h: "\<forall>x. fst a = Some x \<longrightarrow> fst a' = Some x"
      "\<forall>k r. snd a k = Some r \<longrightarrow> snd a' k = Some r"
    and t: "list_all2 (\<lambda>a a'. (\<forall>x. fst a = Some x \<longrightarrow> fst a' = Some x) \<and>
        (\<forall>k r. snd a k = Some r \<longrightarrow> snd a' k = Some r)) as as''"
    by (cases as') auto
  obtain c s where a: "a = (c, s)" by (cases a)
  obtain c' s' where a': "a' = (c', s')" by (cases a')
  from Cons.prems(2) a obtain x where c: "c = Some x" by (cases c) auto
  with h(1) a a' have c': "c' = Some x" by simp
  show ?case
  proof (cases x)
    case (Inl e)
    show ?thesis
    proof (cases e)
      case (ValidationError m)
      with Cons.prems(2) a c Inl have "first_valid as k = Some r" by simp
      from Cons.IH[OF t this] as' a' c' Inl ValidationError show ?thesis by simp
    qed (use Cons.prems(2) a c as' a' c' Inl in auto)
  next
    case (Inr u)
    with Cons.prems(2) a c obtain b k1 where b: "s k = Some (b, k1)"
      by (cases "s k") auto
    with h(2) a a' have b': "s' k = Some (b, k1)" by simp
    show ?thesis
    proof (cases b)
      case bl: (Inl e)
      show ?thesis
      proof (cases e)
        case (ValidationError m)
        with Cons.prems(2) a c Inr b bl have "first_valid as k1 = Some r" by simp
        from Cons.IH[OF t this] as' a' c' Inr b' bl ValidationError show ?thesis by simp
      qed (use Cons.prems(2) a c as' a' c' Inr b b' bl in auto)
    next
      case br: (Inr y)
      with Cons.prems(2) a c as' a' c' Inr b b' show ?thesis by auto
    qed
  qed
qed

lemma sanitizer_fuel_Suc:
  "sanitizer n tys t expr v path k = Some r \<Longrightarrow> sanitizer (Suc n) tys t expr v path k = Some r"
proof (induction n arbitrary: expr t v path k r)
  case 0
  then show ?case by simp
next
  case (Suc n)
  show ?case
  proof (cases t)
    case (TAlias name)
    show ?thesis
    proof (cases "map_of tys name")
      case None
      with Suc.prems TAlias show ?thesis by simp
    next
      case (Some target)
      with Suc.prems TAlias obtain c where
        c: "validator n tys (InValidate (Some True)) target Param v [name] = Some c"
        by (cases "validator n tys (InValidate (Some True)) target Param v [name]")
          (auto simp: create_method_validate_method)
      from validator_fuel_Suc[OF c]
      have c': "validator (Suc n) tys (InValidate (Some True)) target Param v [name] = Some c" .
      show ?thesis
      proof (cases c)
        case (Inl e)
        with Suc.prems TAlias Some c c' show ?thesis
          by (simp add: create_method_validate_method)
      next
        case (Inr u)
        with Suc.prems TAlias Some c have "sanitizer n tys target Param v [name] k = Some r"
          by (simp add: create_method_validate_method)
        from Suc.IH[OF this] TAlias Some c' Inr show ?thesis
          by (simp add: create_method_validate_method)
      qed
    qed
  next
    case (TArray elem)
    show ?thesis
    proof (cases "isArray v")
      case True
      with Suc.prems TArray obtain b where
        b: "map_items (\<lambda>item next'. sanitizer n tys elem Item item (path @ [''__item__'']) next')
            (elements v) (Suc k) = Some b"
        by (cases "map_items (\<lambda>item next'. sanitizer n tys elem Item item (path @ [''__item__'']) next')
            (elements v) (Suc k)") auto
      have "map_items (\<lambda>item next'. sanitizer (Suc n) tys elem Item item (path @ [''__item__'']) next')
            (elements v) (Suc k) = Some b"
        by (rule map_items_fuel[OF _ b]) (rule Suc.IH)
      with b Suc.prems TArray True show ?thesis by simp
    next
      case False
      with Suc.prems TArray show ?thesis by simp
    qed
  next
    case (TObject ps)
    with Suc.prems obtain b where
      b: "assign (\<lambda>t x p next'. sanitizer n tys t Property x p next') v path ps [] (Suc k) = Some b"
      by (cases "assign (\<lambda>t x p next'. sanitizer n tys t Property x p next') v path ps [] (Suc k)") auto
    have "assign (\<lambda>t x p next'. sanitizer (Suc n) tys t Property x p next') v path ps [] (Suc k) = Some b"
      by (rule assign_fuel[OF _ b]) (rule Suc.IH)
    with b Suc.prems TObject show ?thesis by simp
  next
    case (TUnion ts)
    from Suc.prems have "first_valid (attempts n tys ts expr v path) k = Some r"
      unfolding TUnion sanitizer_TUnion .
    moreover have "list_all2 (\<lambda>a a'. (\<forall>x. fst a = Some x \<longrightarrow> fst a' = Some x) \<and>
        (\<forall>k r. snd a k = Some r \<longrightarrow> snd a' k = Some r))
        (attempts n tys ts expr v path) (attempts (Suc n) tys ts expr v path)"
      by (rule list_all2_all_nthI) (simp_all add: Suc.IH validator_fuel_Suc)
    ultimately have "first_valid (attempts (Suc n) tys ts expr v path) k = Some r"
      using first_valid_fuel by blast
    then show ?thesis unfolding TUnion sanitizer_TUnion .
  qed (use Suc.prems in simp_all)
qed

lemma sanitizer_fuel:
  "sanitizer n tys t expr v path k = Some r \<Longrightarrow> n \<le> m \<Longrightarrow> sanitizer m tys t expr v path k = Some r"
  by (induction m) (auto simp: le_Suc_eq sanitizer_fuel_Suc)

lemma validate_fuel:
  "validate n tys name v options = Some r \<Longrightarrow> n \<le> m \<Longrightarrow> validate m tys name v options = Some r"
  unfolding validate_def validate_method_def
  by (auto split: option.splits dest: validator_fuel)

lemma create_fuel:
  assumes "create n tys name v k = Some r" and "n \<le> m"
  shows "create m tys name v k = Some r"
proof (cases "map_of tys name")
  case None
  with assms show ?thesis by (simp add: create_def)
next
  case (Some t)
  with assms(1) obtain c where
    c: "validator n tys (InValidate (Some True)) t Param v [name] = Some c"
    by (cases "validator n tys (InValidate (Some True)) t Param v [name]")
      (auto simp: create_def validate_def create_method_validate_method)
  from validator_fuel[OF c assms(2)]
  have c': "validator m tys (InValidate (Some True)) t Param v [name] = Some c" .
  show ?thesis
  proof (cases c)
    case (Inl e)
    with assms(1) Some c c' show ?thesis
      by (simp add: create_def validate_def create_method_validate_method)
  next
    case (Inr u)
    with assms(1) Some c have "sanitizer n tys t Param v [name] k = Some r"
      by (simp add: create_def validate_def create_method_validate_method)
    from sanitizer_fuel[OF this assms(2)] Some c' Inr show ?thesis
      by (simp add: create_def validate_def create_method_validate_method)
  qed
qed

text \<open>
  What \<^verbatim>\<open>create\<close> does with the result of its call of \<^verbatim>\<open>validate\<close>: it throws what
  \<^verbatim>\<open>validate\<close> throws, and otherwise returns what the sanitizer expression evaluates to.
\<close>

lemma create_throws_what_validate_throws:
  "validate n tys name v \<lparr>errorCatcher = None, allowAdditionalProperties = Some True\<rparr> = Some (Inl e, c)
     \<Longrightarrow> create n tys name v next = Some (Inl e, next)"
  by (auto simp: create_def create_method_def validate_def split: option.splits)

lemma create_returns_sanitized:
  "map_of tys name = Some t \<Longrightarrow>
   validate n tys name v \<lparr>errorCatcher = None, allowAdditionalProperties = Some True\<rparr> = Some (Inr True, c)
     \<Longrightarrow> create n tys name v next = sanitizer n tys t Param v [name] next"
  by (simp add: create_def create_method_def)

section \<open>Claims about \<^verbatim>\<open>validate\<close>\<close>

text \<open>
  Claim C10. For every named type and every value, when \<^verbatim>\<open>validate\<close> returns \<^verbatim>\<open>true\<close> the
  error catcher that was supplied is left as it was: its \<^verbatim>\<open>error\<close> field is written on
  the failure path only.
\<close>

theorem validate_success_keeps_errorCatcher:
  "validate n tys name v options = Some (Inr True, catcher) \<Longrightarrow> catcher = errorCatcher options"
  by (auto simp: validate_def validate_method_def split: option.splits sum.splits exn.splits)

theorem validate_success_keeps_errorCatcher_witness:
  "validate (Suc (Suc 0)) [(''U'', TUnion [TBoolean, TNumber])] ''U'' (JNum 5)
       \<lparr>errorCatcher = Some \<lparr>error = Message ''old'' None\<rparr>, allowAdditionalProperties = None\<rparr>
     = Some (Inr True, Some \<lparr>error = Message ''old'' None\<rparr>)
   \<and> Some \<lparr>error = Message ''old'' None\<rparr>
     = errorCatcher \<lparr>errorCatcher = Some \<lparr>error = Message ''old'' None\<rparr>, allowAdditionalProperties = None\<rparr>"
proof -
  have h: "validate (Suc (Suc 0)) [(''U'', TUnion [TBoolean, TNumber])] ''U'' (JNum 5)
       \<lparr>errorCatcher = Some \<lparr>error = Message ''old'' None\<rparr>, allowAdditionalProperties = None\<rparr>
     = Some (Inr True, Some \<lparr>error = Message ''old'' None\<rparr>)"
    by (simp add: validate_def validate_method_def fail_def passed_def enumerate_eq_zip toString.simps digit_def)
  from validate_success_keeps_errorCatcher[OF h] h show ?thesis by simp
qed

text \<open>
  Claim C6. The method \<^verbatim>\<open>validate\<close> of a named type returns \<^verbatim>\<open>true\<close> when the emitted checks
  pass. When they throw a \<^verbatim>\<open>ValidationError\<close> and an error catcher was supplied, the message
  is written into the catcher and \<^verbatim>\<open>false\<close> is returned; without a catcher the same
  \<^verbatim>\<open>ValidationError\<close> is thrown again. Whatever else the checks throw leaves \<^verbatim>\<open>validate\<close>
  as it is, and the catcher is not touched.
\<close>

theorem validate_entrypoint:
  "map_of tys name = Some t \<Longrightarrow>
   checks = validator n tys (InValidate (allowAdditionalProperties options)) t Param v [name] \<Longrightarrow>
     (checks = passed \<longrightarrow> validate n tys name v options = Some (Inr True, errorCatcher options)) \<and>
     (\<forall>m c. checks = Some (Inl (ValidationError m)) \<and> errorCatcher options = Some c \<longrightarrow>
        validate n tys name v options = Some (Inr False, Some (c\<lparr>error := m\<rparr>))) \<and>
     (\<forall>m. checks = Some (Inl (ValidationError m)) \<and> errorCatcher options = None \<longrightarrow>
        validate n tys name v options = Some (Inl (ValidationError m), None)) \<and>
     (\<forall>e. checks = Some (Inl e) \<and> (\<forall>m. e \<noteq> ValidationError m) \<longrightarrow>
        validate n tys name v options = Some (Inl e, errorCatcher options))"
  by (auto simp: validate_def validate_method_def passed_def split: option.splits sum.splits exn.splits)

theorem validate_entrypoint_witness:
  "validate (Suc 0) [(''B'', TBoolean), (''A'', TAlias ''Missing'')] ''B'' (JBool True) no_options
     = Some (Inr True, None)
   \<and> validate (Suc 0) [(''B'', TBoolean), (''A'', TAlias ''Missing'')] ''B'' (JNum 0)
       \<lparr>errorCatcher = Some createErrorCatcher, allowAdditionalProperties = None\<rparr>
     = Some (Inr False, Some \<lparr>error = Message ''B is not a boolean'' (Some (JNum 0))\<rparr>)
   \<and> validate (Suc 0) [(''B'', TBoolean), (''A'', TAlias ''Missing'')] ''B'' (JNum 0) no_options
     = Some (Inl (ValidationError (Message ''B is not a boolean'' (Some (JNum 0)))), None)
   \<and> validate (Suc 0) [(''B'', TBoolean), (''A'', TAlias ''Missing'')] ''A'' (JNum 0)
       \<lparr>errorCatcher = Some createErrorCatcher, allowAdditionalProperties = None\<rparr>
     = Some (Inl (ReferenceError ''Missing''), Some createErrorCatcher)"
proof -
  let ?tys = "[(''B'', TBoolean), (''A'', TAlias ''Missing'')]"
  let ?catch = "\<lparr>errorCatcher = Some createErrorCatcher, allowAdditionalProperties = None\<rparr>"
  have b: "map_of ?tys ''B'' = Some TBoolean" and a: "map_of ?tys ''A'' = Some (TAlias ''Missing'')"
    by simp_all
  have 1: "validate (Suc 0) ?tys ''B'' (JBool True) no_options = Some (Inr True, None)"
    using validate_entrypoint[OF b refl, of "Suc 0" no_options "JBool True"]
    by (simp add: no_options_def)
  have 2: "validate (Suc 0) ?tys ''B'' (JNum 0) ?catch
     = Some (Inr False, Some \<lparr>error = Message ''B is not a boolean'' (Some (JNum 0))\<rparr>)"
    using validate_entrypoint[OF b refl, of "Suc 0" ?catch "JNum 0"]
    by (simp add: fail_def passed_def createErrorCatcher_def)
  have 3: "validate (Suc 0) ?tys ''B'' (JNum 0) no_options
     = Some (Inl (ValidationError (Message ''B is not a boolean'' (Some (JNum 0)))), None)"
    using validate_entrypoint[OF b refl, of "Suc 0" no_options "JNum 0"]
    by (simp add: fail_def passed_def no_options_def)
  have 4: "validate (Suc 0) ?tys ''A'' (JNum 0) ?catch
     = Some (Inl (ReferenceError ''Missing''), Some createErrorCatcher)"
    using validate_entrypoint[OF a refl, of "Suc 0" ?catch "JNum 0"]
    by (simp add: passed_def)
  from 1 2 3 4 show ?thesis by blast
qed

text \<open>
  Claim C2. The checks of a union try the members in declared order. A member that
  passes after all members before it have thrown a \<^verbatim>\<open>ValidationError\<close> ends the check with
  success, whatever the later members would do; when every member throws a
  \<^verbatim>\<open>ValidationError\<close>, the check throws the one of the last member; and a union passes only
  through such a first passing member. For \<^verbatim>\<open>union(boolean, number)\<close> (the witness),
  \<^verbatim>\<open>validate(true)\<close> and \<^verbatim>\<open>validate(5)\<close> return \<^verbatim>\<open>true\<close> and \<^verbatim>\<open>validate("x")\<close> fails with the
  message of the number member.
\<close>

theorem union_validation:
  "(i < length ts \<longrightarrow> validator n tys sc (ts ! i) expr v (path @ [toString i]) = passed \<longrightarrow>
      (\<forall>j < i. \<exists>m. validator n tys sc (ts ! j) expr v (path @ [toString j]) = Some (Inl (ValidationError m))) \<longrightarrow>
      validator (Suc n) tys sc (TUnion ts) expr v path = passed)
   \<and> (ts \<noteq> [] \<longrightarrow>
      (\<forall>j < length ts. \<exists>m. validator n tys sc (ts ! j) expr v (path @ [toString j]) = Some (Inl (ValidationError m))) \<longrightarrow>
      validator (Suc n) tys sc (TUnion ts) expr v path
        = validator n tys sc (last ts) expr v (path @ [toString (length ts - 1)]))
   \<and> (validator (Suc n) tys sc (TUnion ts) expr v path = passed \<longrightarrow>
      (\<exists>i < length ts. validator n tys sc (ts ! i) expr v (path @ [toString i]) = passed \<and>
         (\<forall>j < i. \<exists>m. validator n tys sc (ts ! j) expr v (path @ [toString j]) = Some (Inl (ValidationError m)))))"
proof (intro conjI impI)
  let ?rs = "member_checks n tys sc ts expr v path"
  {
    assume i: "i < length ts" and p: "validator n tys sc (ts ! i) expr v (path @ [toString i]) = passed"
      and f: "\<forall>j < i. \<exists>m. validator n tys sc (ts ! j) expr v (path @ [toString j]) = Some (Inl (ValidationError m))"
    have "try_each None ?rs = passed"
    proof (rule try_each_pass[of i])
      show "i < length ?rs" using i by simp
      show "?rs ! i = passed" using i p by simp
      show "\<forall>j<i. \<exists>m. ?rs ! j = Some (Inl (ValidationError m))" using i f by simp
    qed
    then show "validator (Suc n) tys sc (TUnion ts) expr v path = passed"
      by (simp only: validator_TUnion)
  }
  {
    assume ne: "ts \<noteq> []"
      and f: "\<forall>j < length ts. \<exists>m. validator n tys sc (ts ! j) expr v (path @ [toString j]) = Some (Inl (ValidationError m))"
    have "length ?rs = length ts" by simp
    with ne have ne': "?rs \<noteq> []" by (metis length_0_conv)
    have "\<forall>r \<in> set ?rs. \<exists>m. r = Some (Inl (ValidationError m))"
      using f by (auto simp: in_set_conv_nth)
    from try_each_all_fail[OF ne' this] have "try_each None ?rs = last ?rs" .
    also have "last ?rs = ?rs ! (length ts - 1)" using ne' by (simp add: last_conv_nth)
    also have "\<dots> = validator n tys sc (ts ! (length ts - 1)) expr v (path @ [toString (length ts - 1)])"
      using ne by simp
    also have "ts ! (length ts - 1) = last ts" using ne by (simp add: last_conv_nth)
    finally show "validator (Suc n) tys sc (TUnion ts) expr v path
        = validator n tys sc (last ts) expr v (path @ [toString (length ts - 1)])"
      by (simp only: validator_TUnion)
  }
  {
    assume "validator (Suc n) tys sc (TUnion ts) expr v path = passed"
    then have "try_each None ?rs = passed" by (simp only: validator_TUnion)
    from try_each_passed_conv[OF this] obtain k where k: "k < length ?rs" "?rs ! k = passed"
      "\<forall>j<k. \<exists>m. ?rs ! j = Some (Inl (ValidationError m))" by blast
    then have "k < length ts \<and> validator n tys sc (ts ! k) expr v (path @ [toString k]) = passed \<and>
         (\<forall>j < k. \<exists>m. validator n tys sc (ts ! j) expr v (path @ [toString j]) = Some (Inl (ValidationError m)))"
      by simp
    then show "\<exists>i < length ts. validator n tys sc (ts ! i) expr v (path @ [toString i]) = passed \<and>
         (\<forall>j < i. \<exists>m. validator n tys sc (ts ! j) expr v (path @ [toString j]) = Some (Inl (ValidationError m)))"
      by blast
  }
qed

theorem union_validation_witness:
  "validate (Suc (Suc 0)) [(''U'', TUnion [TBoolean, TNumber])] ''U'' (JBool True) no_options
     = Some (Inr True, None)
   \<and> validate (Suc (Suc 0)) [(''U'', TUnion [TBoolean, TNumber])] ''U'' (JNum 5) no_options
     = Some (Inr True, None)
   \<and> validate (Suc (Suc 0)) [(''U'', TUnion [TBoolean, TNumber])] ''U'' (JStr ''x'') no_options
     = Some (Inl (ValidationError (Message ''U.1 is not a number'' (Some (JStr ''x'')))), None)
   \<and> validate (Suc (Suc 0)) [(''U'', TUnion [TBoolean, TNumber])] ''U'' (JStr ''x'')
       \<lparr>errorCatcher = Some createErrorCatcher, allowAdditionalProperties = None\<rparr>
     = Some (Inr False, Some \<lparr>error = Message ''U.1 is not a number'' (Some (JStr ''x''))\<rparr>)"
proof -
  let ?tys = "[(''U'', TUnion [TBoolean, TNumber])]"
  let ?U = "\<lambda>v. validator (Suc (Suc 0)) ?tys (InValidate None) (TUnion [TBoolean, TNumber]) Param v [''U'']"
  have t: "?U (JBool True) = passed"
    using union_validation[of 0 "[TBoolean, TNumber]" "Suc 0" ?tys "InValidate None" Param "JBool True" "[''U'']",
        THEN conjunct1]
    by (simp add: fail_def passed_def toString.simps digit_def)
  have n: "?U (JNum 5) = passed"
    using union_validation[of 1 "[TBoolean, TNumber]" "Suc 0" ?tys "InValidate None" Param "JNum 5" "[''U'']",
        THEN conjunct1]
    by (simp add: fail_def passed_def toString.simps digit_def)
  have x: "?U (JStr ''x'') = fail ''U.1 is not a number'' (JStr ''x'')"
    using union_validation[of 0 "[TBoolean, TNumber]" "Suc 0" ?tys "InValidate None" Param "JStr ''x''" "[''U'']",
        THEN conjunct2, THEN conjunct1]
    by (simp add: fail_def passed_def toString.simps digit_def All_less_Suc)
  show ?thesis
    unfolding validate_def validate_method_def no_options_def
    using t n x by (simp add: fail_def passed_def)
qed

section \<open>Claims about \<^verbatim>\<open>create\<close>\<close>

text \<open>
  Claim C1, as amended. \<^verbatim>\<open>create\<close> validates with \<^verbatim>\<open>allowAdditionalProperties\<close> set, so it
  accepts values that \<^verbatim>\<open>validate\<close> without options rejects for an undeclared key (the
  counterexample), and a type such as \<^verbatim>\<open>any\<close> returns the value with all its keys. What
  holds: when \<^verbatim>\<open>create(v)\<close> returns a value, \<^verbatim>\<open>validate(v, {allowAdditionalProperties: true})\<close>
  returns \<^verbatim>\<open>true\<close>; when \<^verbatim>\<open>validate(v)\<close> without options returns \<^verbatim>\<open>true\<close>, \<^verbatim>\<open>create(v)\<close> throws no
  \<^verbatim>\<open>ValidationError\<close>; and for a named object type the keys of the value that \<^verbatim>\<open>create\<close>
  returns are declared property names.
\<close>

theorem create_and_validate:
  "(create n tys name v next = Some (Inr r, next') \<longrightarrow>
      validate n tys name v \<lparr>errorCatcher = None, allowAdditionalProperties = Some True\<rparr>
        = Some (Inr True, None))
   \<and> (validate n tys name v no_options = Some (Inr True, catcher) \<longrightarrow>
      create n tys name v next \<noteq> Some (Inl (ValidationError m), next'))
   \<and> (map_of tys name = Some (TObject properties) \<longrightarrow>
      create n tys name v next = Some (Inr r, next') \<longrightarrow>
      set (keys r) \<subseteq> set (map fst properties))"
proof (intro conjI impI)
  assume "create n tys name v next = Some (Inr r, next')"
  from create_Inr[OF this] show
    "validate n tys name v \<lparr>errorCatcher = None, allowAdditionalProperties = Some True\<rparr>
        = Some (Inr True, None)"
    by (auto simp: validate_def validate_method_def passed_def)
next
  assume "validate n tys name v no_options = Some (Inr True, catcher)"
  from validate_True[OF this] obtain t where t: "map_of tys name = Some t"
    and p: "validator n tys (InValidate None) t Param v [name] = passed"
    by (auto simp: no_options_def)
  note l = strict_passed_lenient[OF p]
  show "create n tys name v next \<noteq> Some (Inl (ValidationError m), next')"
  proof (cases "validator n tys (InValidate (Some True)) t Param v [name]")
    case None
    with t show ?thesis by (simp add: create_def validate_def create_method_validate_method)
  next
    case (Some s)
    show ?thesis
    proof (cases s)
      case (Inl e)
      with Some l have "e \<noteq> ValidationError m" by auto
      with Some Inl t show ?thesis
        by (simp add: create_def validate_def create_method_validate_method)
    next
      case (Inr u)
      with Some have "validator n tys (InValidate (Some True)) t Param v [name] = passed"
        by (simp add: passed_def)
      from sanitizer_no_ValidationError[OF this] Some Inr t show ?thesis
        by (simp add: create_def validate_def create_method_validate_method)
    qed
  qed
next
  assume m: "map_of tys name = Some (TObject properties)"
    and "create n tys name v next = Some (Inr r, next')"
  from create_Inr[OF this(2)] m
  have s: "sanitizer n tys (TObject properties) Param v [name] next = Some (Inr r, next')" by auto
  then obtain k where n: "n = Suc k" by (cases n) auto
  from s[unfolded n] obtain out where
    a: "assign (\<lambda>t x p next'. sanitizer k tys t Property x p next') v [name] properties [] (Suc next)
          = Some (Inr out, next')"
    and r: "r = JObj next out"
    by (auto split: option.splits sum.splits prod.splits)
  from assign_keys[OF a] r show "set (keys r) \<subseteq> set (map fst properties)" by simp
qed

theorem create_and_validate_witness:
  "create (Suc (Suc 0))
       [(''T'', TObject [(''a'', ObjectProperty TNumber True), (''b'', ObjectProperty TNumber False)])] ''T''
       (JObj 0 [(''a'', JNum 1), (''b'', JNum 2)]) 1
     = Some (Inr (JObj 1 [(''a'', JNum 1), (''b'', JNum 2)]), 2)
   \<and> validate (Suc (Suc 0))
       [(''T'', TObject [(''a'', ObjectProperty TNumber True), (''b'', ObjectProperty TNumber False)])] ''T''
       (JObj 0 [(''a'', JNum 1), (''b'', JNum 2)])
       \<lparr>errorCatcher = None, allowAdditionalProperties = Some True\<rparr>
     = Some (Inr True, None)
   \<and> validate (Suc (Suc 0))
       [(''T'', TObject [(''a'', ObjectProperty TNumber True), (''b'', ObjectProperty TNumber False)])] ''T''
       (JObj 0 [(''a'', JNum 1), (''b'', JNum 2)]) no_options
     = Some (Inr True, None)
   \<and> map_of [(''T'', TObject [(''a'', ObjectProperty TNumber True), (''b'', ObjectProperty TNumber False)])] ''T''
     = Some (TObject [(''a'', ObjectProperty TNumber True), (''b'', ObjectProperty TNumber False)])
   \<and> set (keys (JObj 1 [(''a'', JNum 1), (''b'', JNum 2)]))
       \<subseteq> set (map fst [(''a'', ObjectProperty TNumber True), (''b'', ObjectProperty TNumber False)])"
proof -
  let ?ps = "[(''a'', ObjectProperty TNumber True), (''b'', ObjectProperty TNumber False)]"
  let ?v = "JObj 0 [(''a'', JNum 1), (''b'', JNum 2)]"
  let ?r = "JObj 1 [(''a'', JNum 1), (''b'', JNum 2)]"
  have c: "create (Suc (Suc 0)) [(''T'', TObject ?ps)] ''T'' ?v 1 = Some (Inr ?r, 2)"
    by (simp add: create_def create_method_def validate_def validate_method_def member_def
        key_checks_def property_checks_def fail_def passed_def andThen_def)
  have s: "validate (Suc (Suc 0)) [(''T'', TObject ?ps)] ''T'' ?v no_options = Some (Inr True, None)"
    by (simp add: validate_def validate_method_def no_options_def
        key_checks_def property_checks_def fail_def passed_def andThen_def)
  have m: "map_of [(''T'', TObject ?ps)] ''T'' = Some (TObject ?ps)" by simp
  note T = create_and_validate[of "Suc (Suc 0)" "[(''T'', TObject ?ps)]" "''T''" ?v 1 ?r 2 None _ ?ps]
  from T c have l: "validate (Suc (Suc 0)) [(''T'', TObject ?ps)] ''T'' ?v
       \<lparr>errorCatcher = None, allowAdditionalProperties = Some True\<rparr> = Some (Inr True, None)"
    by blast
  from T c m have k: "set (keys ?r) \<subseteq> set (map fst ?ps)" by blast
  from c l s m k show ?thesis by blast
qed

theorem create_and_validate_counterexample:
  "validate (Suc (Suc 0))
       [(''T'', TObject [(''a'', ObjectProperty TNumber True), (''b'', ObjectProperty TNumber False)])] ''T''
       (JObj 0 [(''a'', JNum 1), (''b'', JNum 2), (''c'', JNum 3)]) no_options
     = Some (Inl (ValidationError (Message ''T does not allow key c''
         (Some (JObj 0 [(''a'', JNum 1), (''b'', JNum 2), (''c'', JNum 3)])))), None)
   \<and> create (Suc (Suc 0))
       [(''T'', TObject [(''a'', ObjectProperty TNumber True), (''b'', ObjectProperty TNumber False)])] ''T''
       (JObj 0 [(''a'', JNum 1), (''b'', JNum 2), (''c'', JNum 3)]) 1
     = Some (Inr (JObj 1 [(''a'', JNum 1), (''b'', JNum 2)]), 2)
   \<and> create (Suc 0) [(''X'', TAny)] ''X'' (JObj 0 [(''c'', JNum 3)]) 1
     = Some (Inr (JObj 0 [(''c'', JNum 3)]), 1)"
  by (simp add: create_def create_method_def validate_def validate_method_def member_def no_options_def
      key_checks_def property_checks_def fail_def passed_def andThen_def)

section \<open>Facts about object types\<close>

text \<open>
  What \<^verbatim>\<open>create\<close> returns for a named object type is a new object: its identity is the
  one that was free when \<^verbatim>\<open>create\<close> was called, so it is none of the objects of the input.
  Its keys are the declared properties that are required or whose read on the input is
  not \<^verbatim>\<open>undefined\<close>, in declared order, so that every key is a declared one and every
  undeclared key of the input is dropped; the value under a key is what the sanitizer of
  the property's type returns for what was read.
\<close>

lemma create_object:
  assumes "map_of tys name = Some (TObject properties)"
    and "distinct (map fst properties)"
    and "create (Suc n) tys name v next = Some (Inr r, next')"
    and "''__proto__'' \<notin> set (map fst properties)"
  shows "\<exists>entries. r = JObj next entries
     \<and> map fst entries = map fst (kept v properties)
     \<and> (\<forall>(key, property) \<in> set (kept v properties).
           \<exists>m m'. sanitizer n tys (ptype property) Property (get v key) [name, key] m = Some (Inr (get r key), m'))
     \<and> set (keys r) \<subseteq> set (map fst properties)
     \<and> identity r = Some next
     \<and> (allocated_before next v \<longrightarrow> next \<notin> set (ids v))"
proof -
  from assms(1,3) have "sanitizer (Suc n) tys (TObject properties) Param v [name] next = Some (Inr r, next')"
    unfolding create_def by (auto dest: create_method_Inr)
  from sanitizer_TObject_Inr[OF this assms(2)] obtain entries where r: "r = JObj next entries"
    and l: "list_all2 (\<lambda>(key, property) (key', y). key' = key \<and>
           (\<exists>m m'. sanitizer n tys (ptype property) Property (get v key) ([name] @ [key]) m = Some (Inr y, m')))
         (kept v properties) entries"
    by blast
  have k: "map fst entries = map fst (kept v properties)" using l by (rule list_all2_keys)
  have dk: "distinct (map fst (kept v properties))"
    using assms(2) unfolding kept_def by (rule distinct_map_filter)
  have v: "\<forall>(key, property) \<in> set (kept v properties).
           \<exists>m m'. sanitizer n tys (ptype property) Property (get v key) [name, key] m = Some (Inr (get r key), m')"
  proof (clarify)
    fix key property assume "(key, property) \<in> set (kept v properties)"
    from list_all2_lookup[OF l dk this] obtain y where
      "map_of entries key = Some y"
      "\<exists>m m'. sanitizer n tys (ptype property) Property (get v key) ([name] @ [key]) m = Some (Inr y, m')"
      by blast
    then show "\<exists>m m'. sanitizer n tys (ptype property) Property (get v key) [name, key] m = Some (Inr (get r key), m')"
      using r by simp
  qed
  have s: "set (keys r) \<subseteq> set (map fst properties)"
    using r k by (auto simp: kept_def)
  show ?thesis using r k v s allocated_before_fresh by auto
qed

text \<open>
  For an object type with a declared property \<open>key\<close> that is not required and whose name is
  plain, and an object whose own property \<open>key\<close> is \<^verbatim>\<open>undefined\<close>: the checks do not depend on
  the declared type of \<open>key\<close> (its type check is skipped, so it cannot fail); the checks pass
  exactly when they pass for the object without the key; and the sanitizer returns what
  it returns for the object without the key, a value that does not have the key.
\<close>

lemma optional_undefined:
  assumes "distinct (map fst properties)"
    and "(key, property) \<in> set properties" and "\<not> required property"
    and "map_of entries key = Some JUndefined" and "plain key"
  shows "validator (Suc n) tys sc (TObject properties) expr (JObj a entries) path
       = validator (Suc n) tys sc (TObject (retyped key t properties)) expr (JObj a entries) path
     \<and> (validator (Suc n) tys sc (TObject properties) expr (JObj a entries) path = passed)
       = (validator (Suc n) tys sc (TObject properties) expr (JObj a (without key entries)) path = passed)
     \<and> sanitizer (Suc n) tys (TObject properties) expr (JObj a entries) path next
       = sanitizer (Suc n) tys (TObject properties) expr (JObj a (without key entries)) path next
     \<and> (\<forall>r next'. sanitizer (Suc n) tys (TObject properties) expr (JObj a entries) path next
           = Some (Inr r, next') \<longrightarrow> key \<notin> set (keys r))"
proof (intro conjI allI impI)
  let ?v = "JObj a entries" and ?w = "JObj a (without key entries)"
  have g: "get ?v key = JUndefined" using assms(4) by simp
  have gw: "\<And>k. get ?w k = get ?v k" using assms(4,5) by (rule get_without)
  have only: "\<And>p. (key, p) \<in> set properties \<Longrightarrow> p = property"
    using assms(1,2) by (meson eq_key_imp_eq_value)
  have kc: "key_checks sc (retyped key t properties) ?v path = key_checks sc properties ?v path"
    by (cases sc) (simp_all add: key_checks_def)
  show "validator (Suc n) tys sc (TObject properties) expr ?v path
       = validator (Suc n) tys sc (TObject (retyped key t properties)) expr ?v path"
    using property_checks_retyped[OF assms(1,2,3) g] kc by simp
  have kin: "key \<in> fst ` set properties" using assms(2) by force
  have ks: "set (keys ?w) = set (keys ?v) - {key}"
    by (auto simp: without_def rev_image_eqI)
  have "(key_checks sc properties ?v path = passed) = (key_checks sc properties ?w path = passed)"
    unfolding key_checks_passed ks using kin by auto
  moreover have "property_checks (\<lambda>t x p. validator n tys sc t Property x p) ?w path properties
      = property_checks (\<lambda>t x p. validator n tys sc t Property x p) ?v path properties"
    using gw by (rule property_checks_cong)
  ultimately show "(validator (Suc n) tys sc (TObject properties) expr ?v path = passed)
       = (validator (Suc n) tys sc (TObject properties) expr ?w path = passed)"
    by simp
  have "assign (\<lambda>t x p next'. sanitizer n tys t Property x p next') ?v path properties [] (Suc next)
      = assign (\<lambda>t x p next'. sanitizer n tys t Property x p next') ?w path properties [] (Suc next)"
    by (rule assign_cong) (simp del: get.simps add: member_def gw)
  then show "sanitizer (Suc n) tys (TObject properties) expr ?v path next
       = sanitizer (Suc n) tys (TObject properties) expr ?w path next"
    by simp
  fix r next'
  assume "sanitizer (Suc n) tys (TObject properties) expr ?v path next = Some (Inr r, next')"
  from sanitizer_TObject_Inr[OF this assms(1)] obtain es where r: "r = JObj next es"
    and l: "list_all2 (\<lambda>(name, property) (key', y). key' = name \<and>
           (\<exists>m m'. sanitizer n tys (ptype property) Property (get ?v name) (path @ [name]) m = Some (Inr y, m')))
         (kept ?v properties) es" by blast
  have "map fst es = map fst (kept ?v properties)" using l by (rule list_all2_keys)
  moreover have "key \<notin> fst ` set (kept ?v properties)"
  proof
    assume "key \<in> fst ` set (kept ?v properties)"
    then obtain p where p: "(key, p) \<in> set (kept ?v properties)" by auto
    then have "(key, p) \<in> set properties" by (simp add: kept_def)
    then have "p = property" by (rule only)
    with p assms(3) g show False by (simp add: kept_def)
  qed
  ultimately show "key \<notin> set (keys r)" using r by (metis keys.simps(1) set_map)
qed

text \<open>
  Every call of \<^verbatim>\<open>create\<close> builds new arrays and objects, so two results are compared by
  content (\<open>erase\<close> forgets the identities). For a table of types whose object types have
  pairwise different, plain property names, and a value that is data: when \<^verbatim>\<open>create(v)\<close>
  returns \<open>r\<close>, then \<^verbatim>\<open>create(r)\<close> returns as well, a value with the content of \<open>r\<close>.
\<close>

lemma create_idempotent:
  assumes "wf_types tys" and "create n tys name v next = Some (Inr r, next')" and "data v"
  shows "\<exists>r2 next''. create n tys name r next' = Some (Inr r2, next'') \<and> erase r2 = erase r"
proof -
  from create_Inr[OF assms(2)] obtain t where t: "map_of tys name = Some t"
    and v: "validator n tys (InValidate (Some True)) t Param v [name] = passed"
    and s: "sanitizer n tys t Param v [name] next = Some (Inr r, next')" by blast
  from sanitizer_stable[OF assms(1) wf_types_lookup[OF assms(1) t] v s assms(3)]
  have "stable n tys t Param [name] v r" .
  then obtain r2 k' where "validator n tys (InValidate (Some True)) t Param r [name] = passed"
    "sanitizer n tys t Param r [name] next' = Some (Inr r2, k')" "erase r2 = erase r"
    unfolding stable_def by blast
  with t have "create n tys name r next' = Some (Inr r2, k') \<and> erase r2 = erase r"
    by (simp add: create_def validate_def create_method_validate_method passed_def)
  then show ?thesis by blast
qed

section \<open>An array type as the element type of an array type\<close>

text \<open>
  Every type is of one of the eleven kinds alias, any, array, boolean, literal, null,
  number, object, string, undefined, union. The checks of an array type fail with
  "<path> is not an array" when the value is no array. When it is one and the expression
  for the value is not the variable of an enclosing loop, the checks pass exactly when
  every element passes the checks of the element type (at the path extended by
  \<^verbatim>\<open>__item__\<close>), each element on its own, and a failure is the failure of the first
  element that does not pass.
\<close>

lemma array_checks:
  "kind t \<in> set [''alias'', ''any'', ''array'', ''boolean'', ''literal'', ''null'', ''number'',
        ''object'', ''string'', ''undefined'', ''union'']
   \<and> (\<not> isArray v \<longrightarrow>
        validator (Suc n) tys sc (TArray t) expr v path = fail (join path @ '' is not an array'') v)
   \<and> (isArray v \<longrightarrow> expr \<noteq> Item \<longrightarrow>
        (validator (Suc n) tys sc (TArray t) expr v path = passed) =
        (\<forall>item \<in> set (elements v). validator n tys sc t Item item (path @ [''__item__'']) = passed))
   \<and> (isArray v \<longrightarrow> expr \<noteq> Item \<longrightarrow> validator (Suc n) tys sc (TArray t) expr v path \<noteq> passed \<longrightarrow>
        (\<exists>before item after. elements v = before @ item # after \<and>
           (\<forall>x \<in> set before. validator n tys sc t Item x (path @ [''__item__'']) = passed) \<and>
           validator n tys sc t Item item (path @ [''__item__'']) \<noteq> passed \<and>
           validator (Suc n) tys sc (TArray t) expr v path
             = validator n tys sc t Item item (path @ [''__item__''])))"
proof (intro conjI impI)
  show "kind t \<in> set [''alias'', ''any'', ''array'', ''boolean'', ''literal'', ''null'', ''number'',
        ''object'', ''string'', ''undefined'', ''union'']"
    by (cases t) simp_all
  show "validator (Suc n) tys sc (TArray t) expr v path = fail (join path @ '' is not an array'') v"
    if "\<not> isArray v" using that by simp
  show "(validator (Suc n) tys sc (TArray t) expr v path = passed) =
        (\<forall>item \<in> set (elements v). validator n tys sc t Item item (path @ [''__item__'']) = passed)"
    if "isArray v" and "expr \<noteq> Item" using that by (simp add: for_of_eq_passed)
  show "\<exists>before item after. elements v = before @ item # after \<and>
           (\<forall>x \<in> set before. validator n tys sc t Item x (path @ [''__item__'']) = passed) \<and>
           validator n tys sc t Item item (path @ [''__item__'']) \<noteq> passed \<and>
           validator (Suc n) tys sc (TArray t) expr v path
             = validator n tys sc t Item item (path @ [''__item__''])"
    if a: "isArray v" and o: "expr \<noteq> Item"
      and f: "validator (Suc n) tys sc (TArray t) expr v path \<noteq> passed"
  proof -
    let ?body = "\<lambda>item. validator n tys sc t Item item (path @ [''__item__''])"
    from a o f have "for_of ?body (elements v) \<noteq> passed" by simp
    from for_of_first_failure[OF this] a o show ?thesis by simp
  qed
qed

text \<open>
  Claim C3 says that the checks of an array type fail with "<path> is not an array" when
  the input is no array, and that otherwise every element is checked on its own against
  the element type. For an array type that is the element type of an array type the
  elements are not checked: with \<^verbatim>\<open>A = array(array(number))\<close> and \<^verbatim>\<open>B = array(number)\<close>,
  \<^verbatim>\<open>B.validate([1])\<close> returns \<^verbatim>\<open>true\<close>, while \<^verbatim>\<open>A.validate([[1]])\<close> throws a \<^verbatim>\<open>ReferenceError\<close>,
  with an error catcher as well as without one, and so does \<^verbatim>\<open>A.validate([[]])\<close>. The
  inner loop is emitted as \<^verbatim>\<open>for (const item of item)\<close>, and its head reads the binding
  \<^verbatim>\<open>item\<close> that it declares itself. Of the arrays, \<^verbatim>\<open>A\<close> accepts the empty one only.
\<close>

theorem nested_array_fault:
  "validate (Suc (Suc (Suc 0))) [(''A'', TArray (TArray TNumber)), (''B'', TArray TNumber)] ''B''
       (JArr 1 [JNum 1]) no_options
     = Some (Inr True, None)
   \<and> validate (Suc (Suc (Suc 0))) [(''A'', TArray (TArray TNumber)), (''B'', TArray TNumber)] ''A''
       (JArr 0 [JArr 1 [JNum 1]]) no_options
     = Some (Inl (ReferenceError ''item''), None)
   \<and> validate (Suc (Suc (Suc 0))) [(''A'', TArray (TArray TNumber)), (''B'', TArray TNumber)] ''A''
       (JArr 0 [JArr 1 [JNum 1]])
       \<lparr>errorCatcher = Some createErrorCatcher, allowAdditionalProperties = None\<rparr>
     = Some (Inl (ReferenceError ''item''), Some createErrorCatcher)
   \<and> validate (Suc (Suc (Suc 0))) [(''A'', TArray (TArray TNumber)), (''B'', TArray TNumber)] ''A''
       (JArr 0 [JArr 1 []]) no_options
     = Some (Inl (ReferenceError ''item''), None)
   \<and> validate (Suc (Suc (Suc 0))) [(''A'', TArray (TArray TNumber)), (''B'', TArray TNumber)] ''A''
       (JArr 0 []) no_options
     = Some (Inr True, None)"
  by (simp add: validate_def validate_method_def no_options_def createErrorCatcher_def
      fail_def passed_def andThen_def)

section \<open>The sanitizer of a union in the scope of \<^verbatim>\<open>create\<close>\<close>

text \<open>
  Claim C5 says that \<^verbatim>\<open>create\<close> validates first, throws what \<^verbatim>\<open>validate\<close> throws, and has no
  failure path of its own. The last part fails on this input: for
  \<^verbatim>\<open>U = union(object{a: required number}, string)\<close>, \<^verbatim>\<open>U.validate({a: 1}, {allowAdditionalProperties: true})\<close>
  returns \<^verbatim>\<open>true\<close>, and \<^verbatim>\<open>U.create({a: 1})\<close> throws a \<^verbatim>\<open>ReferenceError\<close>: the sanitizer of
  the union runs the checks of the object member in the body of \<^verbatim>\<open>create\<close>, where
  \<^verbatim>\<open>allowAdditionalProperties\<close> is not declared.
\<close>

theorem create_union_fault:
  "validate (Suc (Suc (Suc 0)))
       [(''U'', TUnion [TObject [(''a'', ObjectProperty TNumber True)], TString])] ''U''
       (JObj 0 [(''a'', JNum 1)]) \<lparr>errorCatcher = None, allowAdditionalProperties = Some True\<rparr>
     = Some (Inr True, None)
   \<and> create (Suc (Suc (Suc 0)))
       [(''U'', TUnion [TObject [(''a'', ObjectProperty TNumber True)], TString])] ''U''
       (JObj 0 [(''a'', JNum 1)]) 1
     = Some (Inl (ReferenceError ''allowAdditionalProperties''), 1)
   \<and> create (Suc (Suc (Suc 0)))
       [(''U'', TUnion [TObject [(''a'', ObjectProperty TNumber True)], TString])] ''U''
       (JStr ''s'') 1
     = Some (Inr (JStr ''s''), 1)"
  by (simp add: create_def create_method_def validate_def validate_method_def statement_def member_def
      key_checks_def property_checks_def fail_def passed_def andThen_def
      enumerate_eq_zip toString.simps digit_def)

text \<open>
  Claim C7 says that the sanitizer of a union validates the members again, in declared
  order, and sanitizes with the first member that validates. For
  \<^verbatim>\<open>A = string\<close>, \<^verbatim>\<open>U = union(alias A, number)\<close> and the value \<^verbatim>\<open>"s"\<close>, the first member
  validates the value, while the sanitizer of the union returns nothing: the call
  \<^verbatim>\<open>A.validate(value, { allowAdditionalProperties })\<close> that it runs for the member reads an
  identifier that the body of \<^verbatim>\<open>create\<close> does not declare, and the \<^verbatim>\<open>ReferenceError\<close> leaves
  the sanitizer.
\<close>

theorem sanitizer_union_fault:
  "validator (Suc (Suc 0)) [(''A'', TString), (''U'', TUnion [TAlias ''A'', TNumber])]
       (InValidate (Some True)) (TAlias ''A'') Param (JStr ''s'') [''U'', ''0'']
     = passed
   \<and> validator (Suc (Suc 0)) [(''A'', TString), (''U'', TUnion [TAlias ''A'', TNumber])]
       InCreate (TAlias ''A'') Param (JStr ''s'') [''U'', ''0'']
     = Some (Inl (ReferenceError ''allowAdditionalProperties''))
   \<and> sanitizer (Suc (Suc (Suc 0))) [(''A'', TString), (''U'', TUnion [TAlias ''A'', TNumber])]
       (TUnion [TAlias ''A'', TNumber]) Param (JStr ''s'') [''U''] 0
     = Some (Inl (ReferenceError ''allowAdditionalProperties''), 0)
   \<and> create (Suc (Suc (Suc (Suc 0)))) [(''A'', TString), (''U'', TUnion [TAlias ''A'', TNumber])]
       ''U'' (JStr ''s'') 0
     = Some (Inl (ReferenceError ''allowAdditionalProperties''), 0)"
  by (simp add: create_def create_method_def validate_def validate_method_def statement_def member_def
      key_checks_def property_checks_def fail_def passed_def andThen_def
      enumerate_eq_zip toString.simps digit_def)

section \<open>Members that an object inherits\<close>

text \<open>
  Claim C4 says that for an object type \<^verbatim>\<open>create\<close> returns a new mapping with the declared
  properties only, the required ones copied, the optional ones copied only if present in
  the input, and every other key dropped. The example of the claim holds: for
  \<^verbatim>\<open>T = object{a: required number, b: optional number}\<close>, \<^verbatim>\<open>T.create({a:1, b:2, c:3})\<close> returns a
  new object \<^verbatim>\<open>{a:1, b:2}\<close>; and an object inside an object is sanitized in its turn: for
  \<^verbatim>\<open>N = object{o: required object{x: required number}}\<close>, \<^verbatim>\<open>N.create({o: {x: 1, y: 2}, z: 3})\<close>
  returns \<^verbatim>\<open>{o: {x: 1}}\<close>, both objects new. An optional property that is not present in the input is copied
  all the same when its name is one that objects inherit: for
  \<^verbatim>\<open>S = object{a: required number, toString: optional any}\<close> the input \<^verbatim>\<open>{a: 1}\<close> has the one
  key \<^verbatim>\<open>a\<close>, and \<^verbatim>\<open>S.create({a: 1})\<close> returns an object with the keys \<^verbatim>\<open>a\<close> and \<^verbatim>\<open>toString\<close>, the
  latter holding the function \<^verbatim>\<open>Object.prototype.toString\<close>: the emitted test
  \<^verbatim>\<open>s["toString"] !== undefined\<close> reads through the prototype. And a property of a union type
  is not copied at all when a member of the union is an object type: for
  \<^verbatim>\<open>W = object{u: required union(object{a: required number}, string)}\<close>, \<^verbatim>\<open>W.validate\<close> accepts
  \<^verbatim>\<open>{u: {a: 1}}\<close> and \<^verbatim>\<open>W.create\<close> throws a \<^verbatim>\<open>ReferenceError\<close> on it.
\<close>

theorem create_copies_inherited:
  "create (Suc (Suc 0))
       [(''T'', TObject [(''a'', ObjectProperty TNumber True), (''b'', ObjectProperty TNumber False)])] ''T''
       (JObj 0 [(''a'', JNum 1), (''b'', JNum 2), (''c'', JNum 3)]) 1
     = Some (Inr (JObj 1 [(''a'', JNum 1), (''b'', JNum 2)]), 2)
   \<and> create (Suc (Suc (Suc 0)))
       [(''N'', TObject [(''o'', ObjectProperty (TObject [(''x'', ObjectProperty TNumber True)]) True)])] ''N''
       (JObj 0 [(''o'', JObj 1 [(''x'', JNum 1), (''y'', JNum 2)]), (''z'', JNum 3)]) 2
     = Some (Inr (JObj 2 [(''o'', JObj 3 [(''x'', JNum 1)])]), 4)
   \<and> keys (JObj 0 [(''a'', JNum 1)]) = [''a'']
   \<and> validate (Suc (Suc 0))
       [(''S'', TObject [(''a'', ObjectProperty TNumber True), (''toString'', ObjectProperty TAny False)])] ''S''
       (JObj 0 [(''a'', JNum 1)]) no_options
     = Some (Inr True, None)
   \<and> create (Suc (Suc 0))
       [(''S'', TObject [(''a'', ObjectProperty TNumber True), (''toString'', ObjectProperty TAny False)])] ''S''
       (JObj 0 [(''a'', JNum 1)]) 1
     = Some (Inr (JObj 1 [(''a'', JNum 1), (''toString'', JFunction ObjectPrototype ''toString'')]), 2)
   \<and> validate (Suc (Suc (Suc (Suc 0))))
       [(''W'', TObject [(''u'', ObjectProperty
           (TUnion [TObject [(''a'', ObjectProperty TNumber True)], TString]) True)])] ''W''
       (JObj 0 [(''u'', JObj 1 [(''a'', JNum 1)])]) no_options
     = Some (Inr True, None)
   \<and> create (Suc (Suc (Suc (Suc 0))))
       [(''W'', TObject [(''u'', ObjectProperty
           (TUnion [TObject [(''a'', ObjectProperty TNumber True)], TString]) True)])] ''W''
       (JObj 0 [(''u'', JObj 1 [(''a'', JNum 1)])]) 2
     = Some (Inl (ReferenceError ''allowAdditionalProperties''), 3)"
  by (simp add: create_def create_method_def validate_def validate_method_def statement_def member_def
      no_options_def inherited_def key_checks_def property_checks_def fail_def passed_def andThen_def
      enumerate_eq_zip toString.simps digit_def)


text \<open>
  Claim C8 says that sanitization is idempotent: for every value \<open>v\<close> that \<^verbatim>\<open>validate\<close>
  accepts, \<^verbatim>\<open>create(create(v))\<close> equals \<^verbatim>\<open>create(v)\<close>. For
  \<^verbatim>\<open>C = object{constructor: optional number}\<close> and \<^verbatim>\<open>v = {constructor: undefined}\<close>,
  \<^verbatim>\<open>C.validate(v)\<close> returns \<^verbatim>\<open>true\<close> and \<^verbatim>\<open>C.create(v)\<close> returns \<^verbatim>\<open>{}\<close>; \<^verbatim>\<open>C.create({})\<close> returns
  nothing: it throws the \<^verbatim>\<open>ValidationError\<close> "C.constructor is not a number", because the
  read \<^verbatim>\<open>c["constructor"]\<close> on the new object finds the function that objects inherit.
\<close>

theorem create_not_idempotent:
  "validate (Suc (Suc 0)) [(''C'', TObject [(''constructor'', ObjectProperty TNumber False)])] ''C''
       (JObj 0 [(''constructor'', JUndefined)]) no_options
     = Some (Inr True, None)
   \<and> create (Suc (Suc 0)) [(''C'', TObject [(''constructor'', ObjectProperty TNumber False)])] ''C''
       (JObj 0 [(''constructor'', JUndefined)]) 1
     = Some (Inr (JObj 1 []), 2)
   \<and> create (Suc (Suc 0)) [(''C'', TObject [(''constructor'', ObjectProperty TNumber False)])] ''C''
       (JObj 1 []) 2
     = Some (Inl (ValidationError (Message ''C.constructor is not a number''
          (Some (JFunction ObjectPrototype ''constructor'')))), 2)"
  by (simp add: create_def create_method_def validate_def validate_method_def member_def
      no_options_def inherited_def key_checks_def property_checks_def fail_def passed_def andThen_def)

end
